theory Spec2Isabelle
  imports Main
begin

section \<open>JavaScript strings\<close>

text \<open>
  A JavaScript string is a sequence of UTF-16 code units; \<open>.length\<close>, \<open>substring\<close>,
  \<open>split\<close> with a regular expression without the \<open>u\<close> flag and \<open>trim\<close> all work on
  code units. A code unit is modelled as a natural number, a string as a list of them.
  For ASCII text the code units are the character codes.
\<close>

type_synonym jsstring = "nat list"

definition ascii :: "string \<Rightarrow> jsstring" where
  "ascii s = map of_char s"

text \<open>
  The character class of the separator in \<open>smartChunkText\<close>:
  the ASCII characters \<^verbatim>\<open>. ? ! , ; :\<close>, line feed and carriage return, and the
  ideographic full stop and the full-width forms of \<^verbatim>\<open>? ! , ; :\<close>, that is the code
  units 2E 3F 21 2C 3B 3A 0A 3002 FF1F FF01 FF0C FF1B FF1A 0D (hexadecimal).
\<close>

definition is_boundary :: "nat \<Rightarrow> bool" where
  "is_boundary u \<longleftrightarrow>
     u \<in> {0x2E, 0x3F, 0x21, 0x2C, 0x3B, 0x3A, 0x0A,
          0x3002, 0xFF1F, 0xFF01, 0xFF0C, 0xFF1B, 0xFF1A, 0x0D}"

text \<open>
  The code units \<open>String.prototype.trim\<close> removes: ECMAScript's WhiteSpace and
  LineTerminator (TAB, LF, VT, FF, CR, SP, NBSP, U+1680, U+2000 to U+200A, U+2028,
  U+2029, U+202F, U+205F, U+3000, U+FEFF).
\<close>

definition is_ws :: "nat \<Rightarrow> bool" where
  "is_ws u \<longleftrightarrow>
     u \<in> {0x09, 0x0A, 0x0B, 0x0C, 0x0D, 0x20, 0xA0, 0x1680,
          0x2000, 0x2001, 0x2002, 0x2003, 0x2004, 0x2005, 0x2006, 0x2007, 0x2008,
          0x2009, 0x200A, 0x2028, 0x2029, 0x202F, 0x205F, 0x3000, 0xFEFF}"

definition trim :: "jsstring \<Rightarrow> jsstring" where
  "trim s = rev (dropWhile is_ws (rev (dropWhile is_ws s)))"

text \<open>\<open>s.substring(i, j)\<close> for \<open>0 \<le> i \<le> j\<close>; indices past the end are clamped.\<close>

definition substring :: "jsstring \<Rightarrow> nat \<Rightarrow> nat \<Rightarrow> jsstring" where
  "substring s i j = take (j - i) (drop i s)"

section \<open>The chunker: \<open>smartChunkText\<close>\<close>

text \<open>
  \<open>text.split\<close> with the regular expression \<open>([...]+)\<close> over the boundary class
  above and the flag \<open>g\<close>: the separator is a maximal run of
  boundary code units, and because it is a capture group the runs are kept in the
  result. The result alternates text between separators (possibly empty, at the start,
  at the end) and separator runs, and begins and ends with a text segment.
\<close>

function split_sentences :: "jsstring \<Rightarrow> jsstring list" where
  "split_sentences text =
     (let seg = takeWhile (\<lambda>u. \<not> is_boundary u) text;
          rest = dropWhile (\<lambda>u. \<not> is_boundary u) text
      in if rest = [] then [seg]
         else seg # takeWhile is_boundary rest # split_sentences (dropWhile is_boundary rest))"
  by pat_completeness auto
termination
proof (relation "measure length")
  show "wf (measure length)" by simp
next
  fix tx :: jsstring and seg rest :: jsstring
  assume r: "rest = dropWhile (\<lambda>u. \<not> is_boundary u) tx" and ne: "rest \<noteq> []"
  from ne obtain u us where rest: "rest = u # us" by (cases rest) auto
  from r ne have "\<not> \<not> is_boundary (hd rest)"
    using hd_dropWhile [of "\<lambda>u. \<not> is_boundary u" tx] by simp
  with rest have "is_boundary u" by simp
  then have "length (dropWhile is_boundary rest) \<le> length us"
    by (simp add: rest length_dropWhile_le)
  also have "\<dots> < length rest" by (simp add: rest)
  also have "\<dots> \<le> length tx" by (simp add: r length_dropWhile_le)
  finally show "(dropWhile is_boundary rest, tx) \<in> measure length" by simp
qed

declare split_sentences.simps [simp del]

text \<open>
  The \<open>for (const part of sentences)\<close> loop, with the two variables it updates:
  \<open>chunks\<close> and \<open>currentChunk\<close>.
\<close>

definition push_trimmed :: "jsstring list \<Rightarrow> jsstring \<Rightarrow> jsstring list" where
  "push_trimmed chunks currentChunk =
     (if trim currentChunk \<noteq> [] then chunks @ [trim currentChunk] else chunks)"

fun accumulate :: "nat \<Rightarrow> jsstring list \<Rightarrow> jsstring list \<Rightarrow> jsstring \<Rightarrow> jsstring list \<times> jsstring" where
  "accumulate maxChunkLength [] chunks currentChunk = (chunks, currentChunk)"
| "accumulate maxChunkLength (part # sentences) chunks currentChunk =
     (if length currentChunk + length part \<le> maxChunkLength
      then accumulate maxChunkLength sentences chunks (currentChunk @ part)
      else accumulate maxChunkLength sentences (push_trimmed chunks currentChunk) part)"

text \<open>
  The fallback loop
  \<^verbatim>\<open>for (let i = 0; i < text.length; i += maxChunkLength) chunks.push(text.substring(i, i + maxChunkLength))\<close>.
  With \<open>maxChunkLength = 0\<close> it never ends, so the model is a partial function and
  \<open>None\<close> stands for not returning.
\<close>

partial_function (option) force_split :: "jsstring \<Rightarrow> nat \<Rightarrow> nat \<Rightarrow> jsstring list \<Rightarrow> jsstring list option" where
  "force_split text maxChunkLength i chunks =
     (if i < length text
      then force_split text maxChunkLength (i + maxChunkLength)
             (chunks @ [substring text i (i + maxChunkLength)])
      else Some chunks)"

definition smartChunkText :: "jsstring \<Rightarrow> nat \<Rightarrow> jsstring list option" where
  "smartChunkText text maxChunkLength =
     (if text = [] then Some []
      else
        let (chunks0, currentChunk) = accumulate maxChunkLength (split_sentences text) [] [];
            chunks1 = push_trimmed chunks0 currentChunk
        in map_option (filter (\<lambda>chunk. length chunk > 0))
             (if length chunks1 = 0 \<and> length text > 0
              then force_split text maxChunkLength 0 chunks1
              else Some chunks1))"

text \<open>
  What the specification says of the chunks, as predicates on the result: the text is
  the chunks in their order, with a run of whitespace (possibly empty) in front of each
  chunk and one after the last.
\<close>

definition all_ws :: "jsstring \<Rightarrow> bool" where
  "all_ws s = list_all is_ws s"

definition non_ws :: "jsstring \<Rightarrow> jsstring" where
  "non_ws s = filter (\<lambda>u. \<not> is_ws u) s"

fun rebuild :: "jsstring list \<Rightarrow> jsstring list \<Rightarrow> jsstring" where
  "rebuild (g # gaps) (c # chunks) = g @ c @ rebuild gaps chunks"
| "rebuild _ _ = []"

definition covers :: "jsstring \<Rightarrow> jsstring list \<Rightarrow> bool" where
  "covers p chunks \<longleftrightarrow>
     (\<exists>gaps tail. length gaps = length chunks \<and> list_all all_ws gaps \<and> all_ws tail \<and>
        p = rebuild gaps chunks @ tail)"

section \<open>Errors and responses\<close>

type_synonym bytes = "nat list"

text \<open>
  One constructor for each \<open>throw new Error(...)\<close> of the source; an error that wraps
  the message of another one carries it. \<open>RuntimeError\<close> is an exception of the runtime
  (a TypeError, a failed \<open>fetch\<close>).
\<close>

datatype error =
    EdgeTtsApiError nat string string
  | EndpointHttpError nat string string
  | JwtParseFailed error
  | EndpointFailed error
  | StreamProcessingFailed error
  | RuntimeError string

datatype jsvalue = JUndefined | JNull | JBool bool | JNumber int | JString jsstring | JObject

fun truthy :: "jsvalue \<Rightarrow> bool" where
  "truthy JUndefined = False"
| "truthy JNull = False"
| "truthy (JBool b) = b"
| "truthy (JNumber n) = (n \<noteq> 0)"
| "truthy (JString s) = (s \<noteq> [])"
| "truthy JObject = True"

datatype message =
    MethodNotAllowed
  | JsonParseError
  | InputRequired
  | InvalidVoiceModel jsvalue jsvalue jsvalue
  | StreamTtsFailed error
  | NonStreamTtsFailed error

datatype response =
    AudioResponse bytes
  | ErrorResponse message nat string

definition errorResponse :: "message \<Rightarrow> nat \<Rightarrow> string \<Rightarrow> response" where
  "errorResponse msg status code = ErrorResponse msg status code"

section \<open>\<open>Promise.all\<close>\<close>

text \<open>
  A settled promise is \<open>Inl e\<close> (rejected with \<open>e\<close>) or \<open>Inr v\<close> (fulfilled with \<open>v\<close>).
  \<open>Promise.all\<close> keeps an array of values, one slot for each input promise. The
  promises settle in some order, given here as the list of their positions. A promise
  that fulfils stores its value in its own slot; the first one that rejects rejects
  the whole. When every slot is filled the result is the array; while a slot is empty
  the result is pending (\<open>None\<close>).
\<close>

fun settle_all :: "nat list \<Rightarrow> ('e + 'a) list \<Rightarrow> 'a option list \<Rightarrow> ('e + 'a list) option" where
  "settle_all [] rs vals = (case those vals of None \<Rightarrow> None | Some vs \<Rightarrow> Some (Inr vs))"
| "settle_all (i # order) rs vals =
     (if i < length rs
      then (case rs ! i of
              Inl e \<Rightarrow> Some (Inl e)
            | Inr v \<Rightarrow> settle_all order rs (vals[i := Some v]))
      else settle_all order rs vals)"

definition promise_all :: "nat list \<Rightarrow> ('e + 'a) list \<Rightarrow> ('e + 'a list) option" where
  "promise_all order rs = settle_all order rs (replicate (length rs) None)"

text \<open>A completion order of \<open>k\<close> promises: a permutation of the positions \<open>0..<k\<close>.\<close>

definition completion_order :: "nat list \<Rightarrow> nat \<Rightarrow> bool" where
  "completion_order order k \<longleftrightarrow> sort order = [0..<k]"

section \<open>The batch orchestrator: \<open>getVoice\<close> and \<open>pipeChunksToStream\<close>\<close>

text \<open>
  What the orchestrator does to the outside, in order: \<open>Dispatch batch\<close> is
  \<open>batch.map(chunk => getAudioChunk(chunk, ...))\<close>, which starts the synthesis call of
  every chunk of the batch; \<open>Write blob ok\<close> is \<open>writer.write(blob)\<close>, where \<open>ok\<close> tells
  whether the promise that \<open>write\<close> returns fulfils (the source never looks at it);
  \<open>Abort e\<close> is \<open>writer.abort(e)\<close> and \<open>Close\<close> is \<open>writer.close()\<close>.
\<close>

datatype 'c event = Dispatch "'c list" | Write bytes bool | Abort error | Close

text \<open>\<open>xs.slice(i, j)\<close> for \<open>0 \<le> i \<le> j\<close>.\<close>

definition slice :: "'a list \<Rightarrow> nat \<Rightarrow> nat \<Rightarrow> 'a list" where
  "slice xs i j = take (j - i) (drop i xs)"

text \<open>
  The loop of \<open>getVoice\<close>. \<open>getAudioChunk\<close> gives the outcome of the synthesis call of
  a chunk and \<open>order i\<close> the order in which the calls of the batch that starts at \<open>i\<close>
  complete. With \<open>concurrency = 0\<close> the loop never ends.
\<close>

partial_function (option) getVoice_loop ::
  "('c \<Rightarrow> error + bytes) \<Rightarrow> (nat \<Rightarrow> nat list) \<Rightarrow> 'c list \<Rightarrow> nat \<Rightarrow> nat \<Rightarrow> bytes list \<Rightarrow>
   'c event list \<Rightarrow> ('c event list \<times> (error + bytes list)) option" where
  "getVoice_loop getAudioChunk order textChunks concurrency i allAudioBlobs trace =
     (if i < length textChunks
      then
        (let batch = slice textChunks i (i + concurrency) in
         case promise_all (order i) (map getAudioChunk batch) of
           None \<Rightarrow> None
         | Some (Inl e) \<Rightarrow> Some (trace @ [Dispatch batch], Inl e)
         | Some (Inr audioBlobs) \<Rightarrow>
             getVoice_loop getAudioChunk order textChunks concurrency (i + concurrency)
               (allAudioBlobs @ audioBlobs) (trace @ [Dispatch batch]))
      else Some (trace, Inr allAudioBlobs))"

definition getVoice ::
  "('c \<Rightarrow> error + bytes) \<Rightarrow> (nat \<Rightarrow> nat list) \<Rightarrow> 'c list \<Rightarrow> nat \<Rightarrow>
   ('c event list \<times> response) option" where
  "getVoice getAudioChunk order textChunks concurrency =
     (case getVoice_loop getAudioChunk order textChunks concurrency 0 [] [] of
        None \<Rightarrow> None
      | Some (trace, Inr allAudioBlobs) \<Rightarrow> Some (trace, AudioResponse (concat allAudioBlobs))
      | Some (trace, Inl e) \<Rightarrow>
          Some (trace, errorResponse (NonStreamTtsFailed e) 500 ''tts_generation_error''))"

text \<open>
  The inner loop of \<open>pipeChunksToStream\<close>: \<open>for (const blob of audioBlobs) writer.write(...)\<close>.
  \<open>write_ok n\<close> tells whether the sink takes the write number \<open>n\<close>; the promise of the
  write is dropped, so the flag is recorded and nothing else.
\<close>

fun writes_of :: "'c event list \<Rightarrow> bytes list" where
  "writes_of [] = []"
| "writes_of (Write blob ok # tr) = blob # writes_of tr"
| "writes_of (_ # tr) = writes_of tr"

fun write_blobs :: "(nat \<Rightarrow> bool) \<Rightarrow> bytes list \<Rightarrow> 'c event list \<Rightarrow> 'c event list" where
  "write_blobs write_ok [] trace = trace"
| "write_blobs write_ok (blob # audioBlobs) trace =
     write_blobs write_ok audioBlobs
       (trace @ [Write blob (write_ok (length (writes_of trace)))])"

partial_function (option) pipe_loop ::
  "('c \<Rightarrow> error + bytes) \<Rightarrow> (nat \<Rightarrow> bool) \<Rightarrow> (nat \<Rightarrow> nat list) \<Rightarrow> 'c list \<Rightarrow> nat \<Rightarrow> nat \<Rightarrow>
   'c event list \<Rightarrow> ('c event list \<times> (error + unit)) option" where
  "pipe_loop getAudioChunk write_ok order chunks concurrency i trace =
     (if i < length chunks
      then
        (let batch = slice chunks i (i + concurrency) in
         case promise_all (order i) (map getAudioChunk batch) of
           None \<Rightarrow> None
         | Some (Inl e) \<Rightarrow> Some (trace @ [Dispatch batch], Inl e)
         | Some (Inr audioBlobs) \<Rightarrow>
             pipe_loop getAudioChunk write_ok order chunks concurrency (i + concurrency)
               (write_blobs write_ok audioBlobs (trace @ [Dispatch batch])))
      else Some (trace, Inr ()))"

text \<open>The \<open>try\<close>/\<open>catch\<close>/\<open>finally\<close> around the loop.\<close>

definition pipeChunksToStream ::
  "('c \<Rightarrow> error + bytes) \<Rightarrow> (nat \<Rightarrow> bool) \<Rightarrow> (nat \<Rightarrow> nat list) \<Rightarrow> 'c list \<Rightarrow> nat \<Rightarrow>
   ('c event list \<times> (error + unit)) option" where
  "pipeChunksToStream getAudioChunk write_ok order chunks concurrency =
     (case pipe_loop getAudioChunk write_ok order chunks concurrency 0 [] of
        None \<Rightarrow> None
      | Some (trace, Inl e) \<Rightarrow> Some (trace @ [Abort e, Close], Inl (StreamProcessingFailed e))
      | Some (trace, Inr u) \<Rightarrow> Some (trace @ [Close], Inr ()))"

text \<open>The bytes the readable side of the stream yields: the writes the sink took.\<close>

fun accepted :: "'c event list \<Rightarrow> bytes" where
  "accepted [] = []"
| "accepted (Write blob ok # tr) = (if ok then blob else []) @ accepted tr"
| "accepted (_ # tr) = accepted tr"

definition streamVoice ::
  "('c \<Rightarrow> error + bytes) \<Rightarrow> (nat \<Rightarrow> bool) \<Rightarrow> (nat \<Rightarrow> nat list) \<Rightarrow> 'c list \<Rightarrow> nat \<Rightarrow>
   ('c event list \<times> response) option" where
  "streamVoice getAudioChunk write_ok order textChunks concurrency =
     (case pipeChunksToStream getAudioChunk write_ok order textChunks concurrency of
        None \<Rightarrow> None
      | Some (trace, Inr u) \<Rightarrow> Some (trace, AudioResponse (accepted trace))
      | Some (trace, Inl e) \<Rightarrow>
          Some (trace, errorResponse (StreamTtsFailed e) 500 ''tts_generation_error''))"

text \<open>
  The windows of the specification: consecutive groups of at most \<open>c\<close> chunks.
\<close>

function windows :: "nat \<Rightarrow> 'a list \<Rightarrow> 'a list list" where
  "windows c xs = (if c = 0 \<or> xs = [] then [] else take c xs # windows c (drop c xs))"
  by pat_completeness auto
termination
  by (relation "measure (\<lambda>(c, xs). length xs)") auto

declare windows.simps [simp del]

text \<open>
  The events of a successful streamed run over a list of windows, where \<open>n\<close> writes
  were made before: each window is dispatched, then its blobs are written in the order
  of its chunks, then the next window starts.
\<close>

fun numbered_writes :: "(nat \<Rightarrow> bool) \<Rightarrow> nat \<Rightarrow> bytes list \<Rightarrow> 'c event list" where
  "numbered_writes write_ok n [] = []"
| "numbered_writes write_ok n (blob # blobs) =
     Write blob (write_ok n) # numbered_writes write_ok (Suc n) blobs"

fun window_events :: "('c \<Rightarrow> bytes) \<Rightarrow> (nat \<Rightarrow> bool) \<Rightarrow> nat \<Rightarrow> 'c list list \<Rightarrow> 'c event list" where
  "window_events audio write_ok n [] = []"
| "window_events audio write_ok n (w # ws) =
     Dispatch w # numbered_writes write_ok n (map audio w)
       @ window_events audio write_ok (n + length w) ws"

text \<open>
  The completion orders a run needs: one for each batch, which starts at a multiple of
  the concurrency, a permutation of the positions of that batch.
\<close>

definition window_orders :: "(nat \<Rightarrow> nat list) \<Rightarrow> 'c list \<Rightarrow> nat \<Rightarrow> bool" where
  "window_orders order chunks c \<longleftrightarrow>
     (\<forall>i<length chunks. c dvd i \<longrightarrow>
        completion_order (order i) (length (slice chunks i (i + c))))"

section \<open>The synthesis client: \<open>getAudioChunk\<close>\<close>

text \<open>The endpoint descriptor the handshake returns: its fields \<open>r\<close> and \<open>t\<close>.\<close>

record endpoint =
  endpoint_r :: string
  endpoint_t :: string

record http_response =
  ok :: bool
  status :: nat
  statusText :: string
  body_text :: string
  body_blob :: bytes

text \<open>
  \<open>getAudioChunk\<close> after \<open>await getEndpoint()\<close>: \<open>endpoint_result\<close> is what that call
  gave (\<open>Inr None\<close> is \<open>null\<close>, and reading a field of it throws), \<open>fetch\<close> is the
  provider (\<open>Inl\<close> when \<open>fetch\<close> itself throws).
\<close>

definition getAudioChunk ::
  "(error + endpoint option) \<Rightarrow> (endpoint \<Rightarrow> 'c \<Rightarrow> error + http_response) \<Rightarrow> 'c \<Rightarrow> error + bytes" where
  "getAudioChunk endpoint_result fetch txt =
     (case endpoint_result of
        Inl e \<Rightarrow> Inl e
      | Inr None \<Rightarrow> Inl (RuntimeError ''TypeError'')
      | Inr (Some ep) \<Rightarrow>
          (case fetch ep txt of
             Inl e \<Rightarrow> Inl e
           | Inr response \<Rightarrow>
               if \<not> ok response
               then Inl (EdgeTtsApiError (status response) (statusText response) (body_text response))
               else Inr (body_blob response)))"

section \<open>The credential manager: \<open>getEndpoint\<close>\<close>

text \<open>
  \<open>tokenInfo\<close>, the cache shared by all requests; \<open>None\<close> is \<open>null\<close>. \<open>expiredAt\<close> is the
  \<open>exp\<close> claim of the token in seconds (\<open>None\<close> when the claim is missing).
\<close>

record tokenInfo =
  endpoint :: "endpoint option"
  token :: "string option"
  expiredAt :: "int option"

definition initial_tokenInfo :: tokenInfo where
  "initial_tokenInfo = \<lparr>endpoint = None, token = None, expiredAt = None\<rparr>"

definition TOKEN_REFRESH_BEFORE_EXPIRY :: int where
  "TOKEN_REFRESH_BEFORE_EXPIRY = 5 * 60"

definition has_token :: "tokenInfo \<Rightarrow> bool" where
  "has_token info \<longleftrightarrow> (case token info of None \<Rightarrow> False | Some s \<Rightarrow> s \<noteq> [])"

text \<open>
  \<open>now < expiredAt - TOKEN_REFRESH_BEFORE_EXPIRY\<close> with \<open>now = Date.now() / 1000\<close>: the
  clock is in milliseconds, so the comparison is written on milliseconds.
\<close>

definition before_refresh :: "int \<Rightarrow> int \<Rightarrow> bool" where
  "before_refresh now_ms exp \<longleftrightarrow> now_ms < (exp - TOKEN_REFRESH_BEFORE_EXPIRY) * 1000"

text \<open>The test at the head of \<open>getEndpoint\<close>.\<close>

definition token_valid :: "int \<Rightarrow> tokenInfo \<Rightarrow> bool" where
  "token_valid now_ms info \<longleftrightarrow>
     has_token info \<and>
     (case expiredAt info of None \<Rightarrow> False | Some exp \<Rightarrow> exp \<noteq> 0 \<and> before_refresh now_ms exp)"

text \<open>
  What the handshake gives, from \<open>sign\<close> to the decoding of the token: \<open>sign\<close> throws,
  \<open>fetch\<close> or \<open>response.json()\<close> throws, the response is not \<open>ok\<close>, or the response is \<open>ok\<close> with the body
  \<open>data\<close>, whose token decodes to an \<open>exp\<close> claim or fails to decode.
\<close>

datatype handshake =
    SignFailed error
  | FetchFailed error
  | HttpFailure nat string string
  | Granted endpoint "error + int option"

text \<open>The \<open>try\<close> block: \<open>Inl\<close> is the error it throws, \<open>Inr\<close> the new cache.\<close>

fun refresh :: "handshake \<Rightarrow> error + tokenInfo" where
  "refresh (SignFailed e) = Inl e"
| "refresh (FetchFailed e) = Inl e"
| "refresh (HttpFailure st stt body) = Inl (EndpointHttpError st stt body)"
| "refresh (Granted data (Inl e)) = Inl (JwtParseFailed e)"
| "refresh (Granted data (Inr exp)) =
     Inr \<lparr>endpoint = Some data, token = Some (endpoint_t data), expiredAt = exp\<rparr>"

text \<open>
  The part of \<open>getEndpoint\<close> after the handshake has settled, on the cache as it is
  then: the result for the caller and the new cache.
\<close>

definition complete_refresh :: "handshake \<Rightarrow> tokenInfo \<Rightarrow> (error + endpoint option) \<times> tokenInfo" where
  "complete_refresh hs info =
     (case refresh hs of
        Inr info' \<Rightarrow> (Inr (endpoint info'), info')
      | Inl e \<Rightarrow>
          if has_token info then (Inr (endpoint info), info)
          else (Inl (EndpointFailed e), info))"

definition getEndpoint ::
  "int \<Rightarrow> handshake \<Rightarrow> tokenInfo \<Rightarrow> (error + endpoint option) \<times> tokenInfo" where
  "getEndpoint now_ms hs info =
     (if token_valid now_ms info then (Inr (endpoint info), info)
      else complete_refresh hs info)"

text \<open>The fields of the cache are written together: the token is that of the endpoint.\<close>

definition coherent :: "tokenInfo \<Rightarrow> bool" where
  "coherent info \<longleftrightarrow> token info = map_option endpoint_t (endpoint info)"

text \<open>Whether a call of \<open>getEndpoint\<close> sends a request to the handshake endpoint.\<close>

fun sends_request :: "handshake \<Rightarrow> bool" where
  "sends_request (SignFailed e) = False"
| "sends_request _ = True"

text \<open>
  Several callers of \<open>getEndpoint\<close>. A caller runs up to its first \<open>await\<close> without
  interruption: it reads the clock and tests the cache (\<open>Check\<close>); a caller that found
  the cache stale is then suspended in the handshake until the handshake settles
  (\<open>Settle\<close>), and only then writes the cache. Between the two steps of one caller the
  steps of the others may run. The state counts the callers in the handshake and the
  requests sent to the handshake endpoint.
\<close>

record world =
  cache :: tokenInfo
  in_flight :: nat
  requests :: nat
  served :: "(error + endpoint option) list"

datatype step = Check int | Settle handshake

fun run_step :: "step \<Rightarrow> world \<Rightarrow> world" where
  "run_step (Check now_ms) w =
     (if token_valid now_ms (cache w)
      then w\<lparr>served := served w @ [Inr (endpoint (cache w))]\<rparr>
      else w\<lparr>in_flight := in_flight w + 1\<rparr>)"
| "run_step (Settle hs) w =
     (if in_flight w = 0 then w
      else
        (case complete_refresh hs (cache w) of
           (res, info') \<Rightarrow>
             w\<lparr>cache := info', in_flight := in_flight w - 1,
               requests := requests w + (if sends_request hs then 1 else 0),
               served := served w @ [res]\<rparr>))"

definition run_steps :: "step list \<Rightarrow> world \<Rightarrow> world" where
  "run_steps steps w = foldl (\<lambda>w s. run_step s w) w steps"

definition initial_world :: world where
  "initial_world = \<lparr>cache = initial_tokenInfo, in_flight = 0, requests = 0, served = []\<rparr>"

text \<open>
  A caller that runs alone to its end: it tests the cache and, when it found the cache
  stale, its handshake settles before any other caller takes a step. A list of such
  accesses is a run in which no two accesses overlap.
\<close>

definition access :: "int \<Rightarrow> handshake \<Rightarrow> world \<Rightarrow> world" where
  "access now_ms hs w =
     (if token_valid now_ms (cache w) then run_step (Check now_ms) w
      else run_step (Settle hs) (run_step (Check now_ms) w))"

definition run_accesses :: "(int \<times> handshake) list \<Rightarrow> world \<Rightarrow> world" where
  "run_accesses accesses w = foldl (\<lambda>w (now_ms, hs). access now_ms hs w) w accesses"

section \<open>The request handler: \<open>handleSpeechRequest\<close>\<close>

definition DEFAULT_CONCURRENCY :: nat where
  "DEFAULT_CONCURRENCY = 10"

definition DEFAULT_CHUNK_SIZE :: nat where
  "DEFAULT_CHUNK_SIZE = 300"

definition OPENAI_VOICE_MAP :: "(jsstring \<times> jsstring) list" where
  "OPENAI_VOICE_MAP =
     [(ascii ''shimmer'', ascii ''zh-CN-XiaoxiaoNeural''),
      (ascii ''alloy'', ascii ''zh-CN-YunyangNeural''),
      (ascii ''fable'', ascii ''zh-CN-YunjianNeural''),
      (ascii ''onyx'', ascii ''zh-CN-XiaoyiNeural''),
      (ascii ''nova'', ascii ''zh-CN-YunxiNeural''),
      (ascii ''echo'', ascii ''zh-CN-liaoning-XiaobeiNeural'')]"

text \<open>
  \<open>OPENAI_VOICE_MAP[key]\<close> is a property read of an object literal: a key of the table
  gives its string, a name that every object inherits from \<open>Object.prototype\<close> gives
  that member (an object or a function), any other key gives \<open>undefined\<close>.
\<close>

definition object_prototype_names :: "jsstring list" where
  "object_prototype_names =
     map ascii [''constructor'', ''__proto__'', ''hasOwnProperty'', ''isPrototypeOf'',
       ''propertyIsEnumerable'', ''toLocaleString'', ''toString'', ''valueOf'',
       ''__defineGetter__'', ''__defineSetter__'', ''__lookupGetter__'', ''__lookupSetter__'']"

definition voice_map_get :: "jsstring \<Rightarrow> jsvalue" where
  "voice_map_get key =
     (case map_of OPENAI_VOICE_MAP key of
        Some v \<Rightarrow> JString v
      | None \<Rightarrow> if key \<in> set object_prototype_names then JObject else JUndefined)"

text \<open>\<open>s.replace(pat, rep)\<close> with a string pattern: the first occurrence is replaced.\<close>

fun replace_first :: "jsstring \<Rightarrow> jsstring \<Rightarrow> jsstring \<Rightarrow> jsstring" where
  "replace_first pat rep [] = (if pat = [] then rep else [])"
| "replace_first pat rep (x # xs) =
     (if take (length pat) (x # xs) = pat then rep @ drop (length pat) (x # xs)
      else x # replace_first pat rep xs)"

text \<open>A default of a destructuring pattern replaces \<open>undefined\<close> and nothing else.\<close>

definition default_to :: "jsvalue \<Rightarrow> jsvalue \<Rightarrow> jsvalue" where
  "default_to d v = (if v = JUndefined then d else v)"

text \<open>
  The fields of the request body that the handler's control flow reads. \<open>speed\<close>,
  \<open>pitch\<close>, \<open>style\<close> and \<open>cleaning_options\<close> only reach \<open>cleanText\<close> and the synthesis
  call, which are parameters below. \<open>concurrency\<close> and \<open>chunk_size\<close> are absent or
  natural numbers.
\<close>

record request_body =
  body_model :: jsvalue
  body_input :: jsvalue
  body_voice :: jsvalue
  body_stream :: jsvalue
  body_concurrency :: "nat option"
  body_chunk_size :: "nat option"

text \<open>\<open>json = None\<close>: \<open>request.json()\<close> throws.\<close>

record request =
  http_method :: string
  json :: "request_body option"

text \<open>
  Lines 133 and 134: \<open>modelVoice = !voice ? OPENAI_VOICE_MAP[model.replace('tts-1-', '')] : null\<close>
  and \<open>finalVoice = modelVoice || voice\<close>, on \<open>model\<close> and \<open>voice\<close> after their defaults.
  \<open>model.replace\<close> throws a TypeError when \<open>model\<close> is not a string.
\<close>

definition modelVoice :: "jsvalue \<Rightarrow> jsvalue \<Rightarrow> error + jsvalue" where
  "modelVoice model voice =
     (if \<not> truthy voice
      then (case model of
              JString m \<Rightarrow> Inr (voice_map_get (replace_first (ascii ''tts-1-'') [] m))
            | _ \<Rightarrow> Inl (RuntimeError ''TypeError''))
      else Inr JNull)"

definition finalVoice :: "jsvalue \<Rightarrow> jsvalue \<Rightarrow> error + jsvalue" where
  "finalVoice model voice =
     (case modelVoice model voice of
        Inl e \<Rightarrow> Inl e
      | Inr mv \<Rightarrow> Inr (if truthy mv then mv else voice))"

text \<open>The voice the handler uses for a request body: the defaults, then the lines above.\<close>

definition resolved_voice :: "request_body \<Rightarrow> error + jsvalue" where
  "resolved_voice requestBody =
     finalVoice (default_to (JString (ascii ''tts-1'')) (body_model requestBody))
       (default_to (JString (ascii ''shimmer'')) (body_voice requestBody))"

text \<open>
  \<open>handleSpeechRequest\<close>. \<open>cleanText\<close> is the text normaliser with the request's
  options, \<open>synth voice chunk\<close> the outcome of \<open>getAudioChunk\<close> for a chunk with the
  resolved voice and the request's prosody. The result is the trace of the orchestrator
  and the response, or the exception the handler throws (\<open>Inl\<close>); \<open>None\<close> when it does
  not return.
\<close>

definition handleSpeechRequest ::
  "(jsstring \<Rightarrow> jsstring) \<Rightarrow> (jsvalue \<Rightarrow> jsstring \<Rightarrow> error + bytes) \<Rightarrow> (nat \<Rightarrow> bool) \<Rightarrow>
   (nat \<Rightarrow> nat list) \<Rightarrow> request \<Rightarrow> (jsstring event list \<times> (error + response)) option" where
  "handleSpeechRequest cleanText synth write_ok order request =
     (if http_method request \<noteq> ''POST''
      then Some ([], Inr (errorResponse MethodNotAllowed 405 ''method_not_allowed''))
      else case json request of
        None \<Rightarrow> Some ([], Inr (errorResponse JsonParseError 400 ''invalid_request_error''))
      | Some requestBody \<Rightarrow>
          if \<not> truthy (body_input requestBody)
          then Some ([], Inr (errorResponse InputRequired 400 ''invalid_request_error''))
          else
            let model = default_to (JString (ascii ''tts-1'')) (body_model requestBody);
                voice = default_to (JString (ascii ''shimmer'')) (body_voice requestBody);
                stream = default_to (JBool False) (body_stream requestBody);
                concurrency = (case body_concurrency requestBody of
                                 None \<Rightarrow> DEFAULT_CONCURRENCY | Some c \<Rightarrow> c);
                chunk_size = (case body_chunk_size requestBody of
                                None \<Rightarrow> DEFAULT_CHUNK_SIZE | Some n \<Rightarrow> n)
            in case body_input requestBody of
                 JString input \<Rightarrow>
                   (let cleanedInput = cleanText input in
                    case finalVoice model voice of
                      Inl e \<Rightarrow> Some ([], Inl e)
                    | Inr fv \<Rightarrow>
                        if \<not> truthy fv
                        then Some ([], Inr (errorResponse
                               (InvalidVoiceModel model voice
                                  (case modelVoice model voice of Inr mv \<Rightarrow> mv | Inl e \<Rightarrow> JNull))
                               400 ''invalid_request_error''))
                        else
                          (case smartChunkText cleanedInput chunk_size of
                             None \<Rightarrow> None
                           | Some textChunks \<Rightarrow>
                               map_option (\<lambda>(trace, resp). (trace, Inr resp))
                                 (if truthy stream
                                  then streamVoice (synth fv) write_ok order textChunks concurrency
                                  else getVoice (synth fv) order textChunks concurrency)))
               | _ \<Rightarrow> Some ([], Inl (RuntimeError ''TypeError'')))"

section \<open>Example values\<close>

text \<open>Concrete inputs for the examples that follow the theorems.\<close>

definition demo_endpoint :: endpoint where
  "demo_endpoint = \<lparr>endpoint_r = ''eastus'', endpoint_t = ''tok''\<rparr>"

text \<open>A provider that answers chunk 7 with status 429 and every other chunk with its audio.\<close>

definition demo_fetch :: "endpoint \<Rightarrow> nat \<Rightarrow> error + http_response" where
  "demo_fetch ep n =
     Inr \<lparr>ok = (n \<noteq> 7), status = (if n = 7 then 429 else 200), statusText = '''',
          body_text = '''', body_blob = [n]\<rparr>"

text \<open>A cache whose token expired at second 1700000000.\<close>

definition stale_info :: tokenInfo where
  "stale_info = \<lparr>endpoint = Some demo_endpoint, token = Some ''tok'', expiredAt = Some 1700000000\<rparr>"

text \<open>A successful handshake whose token expires at second 1700003600.\<close>

definition demo_grant :: handshake where
  "demo_grant = Granted demo_endpoint (Inr (Some 1700003600))"

text \<open>The request body \<open>{"model": "tts-1-alloy", "input": "hi"}\<close>, sent with POST.\<close>

definition demo_body :: request_body where
  "demo_body = \<lparr>body_model = JString (ascii ''tts-1-alloy''), body_input = JString (ascii ''hi''),
     body_voice = JUndefined, body_stream = JUndefined, body_concurrency = None,
     body_chunk_size = None\<rparr>"

definition demo_request :: request where
  "demo_request = \<lparr>http_method = ''POST'', json = Some demo_body\<rparr>"

text \<open>A synthesis that returns the name of the voice it is called with.\<close>

definition echo_voice :: "jsvalue \<Rightarrow> jsstring \<Rightarrow> error + bytes" where
  "echo_voice v chunk = (case v of JString s \<Rightarrow> Inr s | _ \<Rightarrow> Inl (RuntimeError ''voice''))"

section \<open>Properties of the chunker\<close>

lemma concat_split_sentences: "concat (split_sentences tx) = tx"
proof (induction tx rule: split_sentences.induct)
  case (1 tx)
  let ?rest = "dropWhile (\<lambda>u. \<not> is_boundary u) tx"
  show ?case
  proof (cases "?rest = []")
    case True
    then show ?thesis
      by (subst split_sentences.simps) (simp add: Let_def takeWhile_eq_all_conv dropWhile_eq_Nil_conv)
  next
    case False
    have "concat (split_sentences (dropWhile is_boundary ?rest)) = dropWhile is_boundary ?rest"
      using 1 [OF refl refl False] .
    then have "concat (split_sentences tx) =
        takeWhile (\<lambda>u. \<not> is_boundary u) tx @ takeWhile is_boundary ?rest @ dropWhile is_boundary ?rest"
      using False by (subst split_sentences.simps) (simp add: Let_def)
    then show ?thesis by simp
  qed
qed

lemma split_sentences_no_boundary:
  "\<forall>u\<in>set tx. \<not> is_boundary u \<Longrightarrow> split_sentences tx = [tx]"
  by (subst split_sentences.simps) (simp add: Let_def dropWhile_eq_Nil_conv takeWhile_eq_all_conv)

lemma trim_decompose:
  "\<exists>lead trail. s = lead @ trim s @ trail \<and> all_ws lead \<and> all_ws trail"
proof -
  let ?a = "takeWhile is_ws s" and ?b = "dropWhile is_ws s"
  let ?c = "takeWhile is_ws (rev ?b)"
  have "rev ?b = ?c @ dropWhile is_ws (rev ?b)" by simp
  then have "?b = rev (dropWhile is_ws (rev ?b)) @ rev ?c"
    by (metis rev_append rev_rev_ident)
  then have "s = ?a @ trim s @ rev ?c"
    by (metis takeWhile_dropWhile_id trim_def)
  moreover have "all_ws ?a" "all_ws (rev ?c)"
    by (auto simp: all_ws_def list_all_iff dest: set_takeWhileD)
  ultimately show ?thesis by blast
qed

lemma trim_empty_all_ws: "trim s = [] \<Longrightarrow> all_ws s"
  using trim_decompose [of s] by (auto simp: all_ws_def)

lemma all_ws_trim_empty: "all_ws s \<Longrightarrow> trim s = []"
proof -
  assume "all_ws s"
  then have "\<forall>u\<in>set s. is_ws u"
    by (simp add: all_ws_def list_all_iff)
  then have "dropWhile is_ws s = []"
    using dropWhile_eq_Nil_conv by blast
  then show ?thesis unfolding trim_def by (simp only: rev.simps dropWhile.simps)
qed

lemma rebuild_snoc:
  "length gaps = length chunks \<Longrightarrow>
   rebuild (gaps @ [g]) (chunks @ [c]) = rebuild gaps chunks @ g @ c"
  by (induction gaps chunks rule: list_induct2) simp_all

lemma covers_push:
  assumes "covers p chunks"
  shows "covers (p @ cur) (push_trimmed chunks cur)"
proof -
  from assms obtain gaps tail where g: "length gaps = length chunks" "list_all all_ws gaps"
    "all_ws tail" "p = rebuild gaps chunks @ tail"
    unfolding covers_def by blast
  show ?thesis
  proof (cases "trim cur = []")
    case True
    then have "all_ws (tail @ cur)" using g(3) trim_empty_all_ws [of cur]
      by (simp add: all_ws_def)
    with g True have "length gaps = length (push_trimmed chunks cur) \<and> list_all all_ws gaps \<and>
        all_ws (tail @ cur) \<and> p @ cur = rebuild gaps (push_trimmed chunks cur) @ (tail @ cur)"
      by (simp add: push_trimmed_def)
    then show ?thesis unfolding covers_def by blast
  next
    case False
    obtain lead trail where d: "cur = lead @ trim cur @ trail" "all_ws lead" "all_ws trail"
      using trim_decompose by blast
    have "p @ cur = rebuild (gaps @ [tail @ lead]) (chunks @ [trim cur]) @ trail"
      using g(1) g(4) d(1) by (simp add: rebuild_snoc)
    moreover have "list_all all_ws (gaps @ [tail @ lead])"
      using g(2,3) d(2) by (simp add: all_ws_def)
    ultimately have "length (gaps @ [tail @ lead]) = length (push_trimmed chunks cur) \<and>
        list_all all_ws (gaps @ [tail @ lead]) \<and> all_ws trail \<and>
        p @ cur = rebuild (gaps @ [tail @ lead]) (push_trimmed chunks cur) @ trail"
      using False g(1) d(3) by (simp add: push_trimmed_def)
    then show ?thesis unfolding covers_def by blast
  qed
qed

lemma accumulate_covers:
  "covers p chunks \<Longrightarrow> accumulate m parts chunks cur = (chunks', cur') \<Longrightarrow>
   \<exists>p'. covers p' chunks' \<and> p' @ cur' = p @ cur @ concat parts"
proof (induction parts arbitrary: p chunks cur)
  case Nil
  then show ?case by auto
next
  case (Cons part parts)
  show ?case
  proof (cases "length cur + length part \<le> m")
    case True
    with Cons.prems have "accumulate m parts chunks (cur @ part) = (chunks', cur')" by simp
    from Cons.IH [OF Cons.prems(1) this] show ?thesis by simp
  next
    case False
    with Cons.prems have "accumulate m parts (push_trimmed chunks cur) part = (chunks', cur')" by simp
    from Cons.IH [OF covers_push [OF Cons.prems(1)] this] show ?thesis by simp
  qed
qed

lemma push_trimmed_nonempty:
  "\<forall>c\<in>set chunks. c \<noteq> [] \<Longrightarrow> \<forall>c\<in>set (push_trimmed chunks cur). c \<noteq> []"
  by (simp add: push_trimmed_def)

lemma accumulate_nonempty:
  "\<forall>c\<in>set chunks. c \<noteq> [] \<Longrightarrow> accumulate m parts chunks cur = (chunks', cur') \<Longrightarrow>
   \<forall>c\<in>set chunks'. c \<noteq> []"
proof (induction parts arbitrary: chunks cur)
  case Nil
  then show ?case by simp
next
  case (Cons part parts)
  show ?case
  proof (cases "length cur + length part \<le> m")
    case True
    with Cons.prems have "accumulate m parts chunks (cur @ part) = (chunks', cur')" by simp
    from Cons.IH [OF Cons.prems(1) this] show ?thesis .
  next
    case False
    with Cons.prems have "accumulate m parts (push_trimmed chunks cur) part = (chunks', cur')" by simp
    from Cons.IH [OF push_trimmed_nonempty [OF Cons.prems(1)] this] show ?thesis .
  qed
qed

lemma force_split_total:
  assumes "1 \<le> m"
  shows "\<exists>ss. force_split tx m i chunks = Some (chunks @ ss) \<and> concat ss = drop i tx \<and>
           (\<forall>s\<in>set ss. s \<noteq> [] \<and> length s \<le> m)"
proof (induction "length tx - i" arbitrary: i chunks rule: less_induct)
  case less
  show ?case
  proof (cases "i < length tx")
    case False
    then show ?thesis by (subst force_split.simps) simp
  next
    case True
    let ?s = "substring tx i (i + m)"
    from True assms have "length tx - (i + m) < length tx - i" by simp
    from less [OF this, of "chunks @ [?s]"] obtain ss where
      ss: "force_split tx m (i + m) (chunks @ [?s]) = Some ((chunks @ [?s]) @ ss)"
        "concat ss = drop (i + m) tx" "\<forall>s\<in>set ss. s \<noteq> [] \<and> length s \<le> m"
      by blast
    have s: "?s = take m (drop i tx)" by (simp add: substring_def)
    have "force_split tx m i chunks = Some (chunks @ (?s # ss))"
      using True ss(1) by (subst force_split.simps) simp
    moreover have "concat (?s # ss) = drop i tx"
      using ss(2) by (simp add: s) (metis add.commute append_take_drop_id drop_drop)
    moreover have "\<forall>x\<in>set (?s # ss). x \<noteq> [] \<and> length x \<le> m"
      using ss(3) True assms by (simp add: s)
    ultimately show ?thesis by blast
  qed
qed

lemma non_ws_all_ws: "all_ws s \<Longrightarrow> non_ws s = []"
  by (simp add: non_ws_def all_ws_def list_all_iff)

lemma non_ws_rebuild:
  "length gaps = length chunks \<Longrightarrow> list_all all_ws gaps \<Longrightarrow>
   non_ws (rebuild gaps chunks) = non_ws (concat chunks)"
  by (induction gaps chunks rule: list_induct2) (simp_all add: non_ws_def all_ws_def list_all_iff)

lemma covers_non_ws: "covers p chunks \<Longrightarrow> non_ws (concat chunks) = non_ws p"
  unfolding covers_def using non_ws_rebuild non_ws_all_ws
  by (auto simp: non_ws_def)

lemma covers_concat: "covers (concat ss) ss"
  unfolding covers_def
proof (intro exI conjI)
  show "length (replicate (length ss) ([]::jsstring)) = length ss" by simp
  show "list_all all_ws (replicate (length ss) [])" by (simp add: list_all_iff all_ws_def)
  show "all_ws []" by (simp add: all_ws_def)
  have "rebuild (replicate (length xs) []) xs = concat xs" for xs :: "jsstring list"
    by (induction xs) simp_all
  then show "concat ss = rebuild (replicate (length ss) []) ss @ []" by simp
qed

lemma chunker_greedy:
  assumes "accumulate m (split_sentences tx) [] [] = (chunks0, cur)"
  shows "covers tx (push_trimmed chunks0 cur) \<and> (\<forall>c\<in>set (push_trimmed chunks0 cur). c \<noteq> [])"
proof -
  have c0: "covers [] []"
    by (simp add: covers_def all_ws_def)
  from accumulate_covers [OF c0 assms] obtain p' where
    p': "covers p' chunks0" "p' @ cur = tx"
    by (auto simp: concat_split_sentences)
  from covers_push [OF p'(1), of cur] p'(2) have "covers tx (push_trimmed chunks0 cur)" by simp
  moreover have "\<forall>c\<in>set chunks0. c \<noteq> []"
    using accumulate_nonempty [OF _ assms] by simp
  ultimately show ?thesis using push_trimmed_nonempty by blast
qed

lemmas chunker_eval =
  smartChunkText_def ascii_def split_sentences.simps is_boundary_def push_trimmed_def
  trim_def is_ws_def force_split.simps substring_def

text \<open>
  Claim C7. For every non-empty text and every \<open>maxChunkLength \<ge> 1\<close> the chunker
  returns, no chunk is the empty string, and the text is the chunks in their order with
  only whitespace between them, before the first and after the last (\<open>covers\<close>); so
  the code units that are not whitespace are those of the text, in the same order,
  none lost, none twice.
\<close>

theorem smartChunkText_reconstructs:
  assumes "tx \<noteq> []" and "1 \<le> m"
  shows "\<exists>chunks. smartChunkText tx m = Some chunks \<and> (\<forall>c\<in>set chunks. c \<noteq> []) \<and>
           covers tx chunks \<and> non_ws (concat chunks) = non_ws tx"
proof -
  obtain chunks0 cur where acc: "accumulate m (split_sentences tx) [] [] = (chunks0, cur)"
    by (cases "accumulate m (split_sentences tx) [] []")
  let ?c1 = "push_trimmed chunks0 cur"
  from chunker_greedy [OF acc] have g: "covers tx ?c1" "\<forall>c\<in>set ?c1. c \<noteq> []" by simp_all
  show ?thesis
  proof (cases "?c1 = []")
    case False
    from g(2) have "filter (\<lambda>chunk. length chunk > 0) ?c1 = ?c1" by (simp add: filter_id_conv)
    with False assms acc have "smartChunkText tx m = Some ?c1"
      by (simp add: smartChunkText_def)
    with g covers_non_ws show ?thesis by blast
  next
    case True
    from force_split_total [OF assms(2), of tx 0 "[]"] obtain ss where
      ss: "force_split tx m 0 [] = Some ss" "concat ss = tx" "\<forall>s\<in>set ss. s \<noteq> [] \<and> length s \<le> m"
      by auto
    from ss(3) have "filter (\<lambda>chunk. length chunk > 0) ss = ss" by (simp add: filter_id_conv)
    with True assms acc ss(1) have res: "smartChunkText tx m = Some ss"
      by (simp add: smartChunkText_def)
    have "covers tx ss" using covers_concat [of ss] ss(2) by simp
    with res ss(3) covers_non_ws show ?thesis by blast
  qed
qed

theorem smartChunkText_reconstructs_witness:
  "ascii ''Hi.  Yo'' \<noteq> [] \<and> (1::nat) \<le> 3 \<and>
   smartChunkText (ascii ''Hi.  Yo'') 3 = Some [ascii ''Hi.'', ascii ''Yo''] \<and>
   covers (ascii ''Hi.  Yo'') [ascii ''Hi.'', ascii ''Yo''] \<and>
   non_ws (concat [ascii ''Hi.'', ascii ''Yo'']) = non_ws (ascii ''Hi.  Yo'')"
proof -
  have ne: "ascii ''Hi.  Yo'' \<noteq> []" by (simp add: ascii_def)
  have ev: "smartChunkText (ascii ''Hi.  Yo'') 3 = Some [ascii ''Hi.'', ascii ''Yo'']"
    by (simp add: chunker_eval)
  from smartChunkText_reconstructs [OF ne, of 3] ev ne show ?thesis by simp
qed

text \<open>
  Claim C4, as the code has it. For a non-empty text without boundary character and
  \<open>maxChunkLength \<ge> 1\<close>: when the text has a code unit that is not whitespace, the
  greedy path returns the trimmed text as the only chunk, whatever its length; the
  fallback slicing runs only when the text is all whitespace, and then the chunks are
  the slices of the text, each of length at most \<open>maxChunkLength\<close>.
\<close>

theorem smartChunkText_no_boundary:
  assumes "tx \<noteq> []" and "\<not> list_ex is_boundary tx" and "1 \<le> m"
  shows "(\<not> all_ws tx \<longrightarrow> smartChunkText tx m = Some [trim tx]) \<and>
         (all_ws tx \<longrightarrow> smartChunkText tx m = force_split tx m 0 [] \<and>
            (\<exists>ss. force_split tx m 0 [] = Some ss \<and> concat ss = tx \<and>
               (\<forall>s\<in>set ss. s \<noteq> [] \<and> length s \<le> m)))"
proof -
  from assms(2) have "split_sentences tx = [tx]"
    by (simp add: split_sentences_no_boundary list_ex_iff)
  then have acc: "accumulate m (split_sentences tx) [] [] = ([], tx)"
    by (simp add: push_trimmed_def trim_def)
  show ?thesis
  proof (intro conjI impI)
    assume "\<not> all_ws tx"
    then have "trim tx \<noteq> []" using trim_empty_all_ws by blast
    then show "smartChunkText tx m = Some [trim tx]"
      using assms(1) acc by (simp add: smartChunkText_def push_trimmed_def)
  next
    assume ws: "all_ws tx"
    from force_split_total [OF assms(3), of tx 0 "[]"] obtain ss where
      ss: "force_split tx m 0 [] = Some ss" "concat ss = tx" "\<forall>s\<in>set ss. s \<noteq> [] \<and> length s \<le> m"
      by auto
    from ss(3) have "filter (\<lambda>chunk. length chunk > 0) ss = ss" by (simp add: filter_id_conv)
    with ws assms(1) acc ss(1) show "smartChunkText tx m = force_split tx m 0 []"
      by (simp add: smartChunkText_def push_trimmed_def all_ws_trim_empty)
    from ss show "\<exists>ss. force_split tx m 0 [] = Some ss \<and> concat ss = tx \<and>
               (\<forall>s\<in>set ss. s \<noteq> [] \<and> length s \<le> m)" by blast
  qed
qed

theorem smartChunkText_no_boundary_witness:
  "smartChunkText (ascii ''  ab cd '') 3 = Some [ascii ''ab cd''] \<and>
   smartChunkText (ascii ''     '') 2 = Some [ascii ''  '', ascii ''  '', ascii '' '']"
proof -
  have a: "ascii ''  ab cd '' \<noteq> []" "\<not> list_ex is_boundary (ascii ''  ab cd '')"
    "\<not> all_ws (ascii ''  ab cd '')" "trim (ascii ''  ab cd '') = ascii ''ab cd''"
    by (simp_all add: ascii_def is_boundary_def all_ws_def is_ws_def trim_def)
  have b: "ascii ''     '' \<noteq> []" "\<not> list_ex is_boundary (ascii ''     '')"
    "all_ws (ascii ''     '')"
    "force_split (ascii ''     '') 2 0 [] = Some [ascii ''  '', ascii ''  '', ascii '' '']"
    by (simp_all add: ascii_def is_boundary_def all_ws_def is_ws_def force_split.simps substring_def)
  have one: "(1::nat) \<le> 3" "(1::nat) \<le> 2" by simp_all
  from smartChunkText_no_boundary [OF a(1) a(2) one(1)] a(3) a(4)
    smartChunkText_no_boundary [OF b(1) b(2) one(2)] b(3) b(4)
  show ?thesis by simp
qed

text \<open>
  Claim C4 as stated fails: \<open>abcdefgh\<close> is not empty and has no boundary character,
  and with \<open>maxChunkLength = 3\<close> the chunker returns it whole, a chunk of length 8.
\<close>

theorem smartChunkText_no_boundary_counterexample:
  "ascii ''abcdefgh'' \<noteq> [] \<and> \<not> list_ex is_boundary (ascii ''abcdefgh'') \<and> (1::nat) \<le> 3 \<and>
   smartChunkText (ascii ''abcdefgh'') 3 = Some [ascii ''abcdefgh''] \<and>
   \<not> length (ascii ''abcdefgh'') \<le> 3"
  by (simp add: chunker_eval)

text \<open>
  Claim C8, as the code has it. The boundary set has no space, so
  \<open>Hello, world. Second sentence!\<close> splits into \<open>Hello\<close>, \<open>,\<close>, \<open> world\<close>, \<open>.\<close>,
  \<open> Second sentence\<close>, \<open>!\<close> and the empty string, and with \<open>chunk_size = 10\<close> the chunks
  are \<open>Hello,\<close>, \<open>world.\<close>, \<open>Second sentence\<close> and \<open>!\<close>.
\<close>

theorem smartChunkText_hello:
  "smartChunkText (ascii ''Hello, world. Second sentence!'') 10 =
     Some [ascii ''Hello,'', ascii ''world.'', ascii ''Second sentence'', ascii ''!'']"
  by (simp add: chunker_eval)

text \<open>Claim C8 as stated fails: the chunks are not the four of the specification.\<close>

theorem smartChunkText_hello_counterexample:
  "smartChunkText (ascii ''Hello, world. Second sentence!'') 10 \<noteq>
     Some [ascii ''Hello,'', ascii ''world.'', ascii ''Second'', ascii ''sentence!'']"
  by (simp add: chunker_eval)

section \<open>Properties of \<open>Promise.all\<close> and of the windows\<close>

lemma those_map_Some: "those (map Some vs) = Some vs"
  by (induction vs) simp_all

lemma settle_all_fulfilled:
  assumes "length rs = length vs" and "\<forall>i<length vs. rs ! i = Inr (vs ! i)"
    and "length vals = length vs"
    and "\<forall>i<length vs. vals ! i = Some (vs ! i) \<or> (vals ! i = None \<and> i \<in> set order)"
  shows "settle_all order rs vals = Some (Inr vs)"
  using assms(3,4)
proof (induction order arbitrary: vals)
  case Nil
  then have "vals = map Some vs"
    by (simp add: list_eq_iff_nth_eq)
  then show ?case by (simp add: those_map_Some)
next
  case (Cons i order)
  show ?case
  proof (cases "i < length rs")
    case True
    let ?vals = "vals[i := Some (vs ! i)]"
    have "\<forall>j<length vs. ?vals ! j = Some (vs ! j) \<or> (?vals ! j = None \<and> j \<in> set order)"
    proof (intro allI impI)
      fix j assume j: "j < length vs"
      show "?vals ! j = Some (vs ! j) \<or> (?vals ! j = None \<and> j \<in> set order)"
      proof (cases "j = i")
        case True
        with j Cons.prems(1) show ?thesis by simp
      next
        case False
        with j Cons.prems(2) show ?thesis by auto
      qed
    qed
    with Cons.IH [of ?vals] Cons.prems(1) have "settle_all order rs ?vals = Some (Inr vs)" by simp
    with True assms(1,2) show ?thesis by simp
  next
    case False
    have "\<forall>j<length vs. vals ! j = Some (vs ! j) \<or> (vals ! j = None \<and> j \<in> set order)"
      using Cons.prems False assms(1) by auto
    with Cons.IH [of vals] Cons.prems(1) False show ?thesis by simp
  qed
qed

lemma settle_all_rejected:
  "\<exists>i\<in>set order. i < length rs \<and> isl (rs ! i) \<Longrightarrow>
   \<exists>e. settle_all order rs vals = Some (Inl e) \<and> Inl e \<in> set rs"
proof (induction order arbitrary: vals)
  case Nil
  then show ?case by simp
next
  case (Cons i order)
  show ?case
  proof (cases "i < length rs")
    case False
    with Cons show ?thesis by auto
  next
    case True
    show ?thesis
    proof (cases "rs ! i")
      case (Inl e)
      with True show ?thesis by (auto simp: in_set_conv_nth)
    next
      case (Inr v)
      with Cons.prems have "\<exists>j\<in>set order. j < length rs \<and> isl (rs ! j)" by auto
      from Cons.IH [OF this] True Inr show ?thesis by simp
    qed
  qed
qed

lemma completion_order_set: "completion_order order k \<Longrightarrow> set order = {0..<k}"
  unfolding completion_order_def by (metis set_sort set_upt)

lemma promise_all_fulfilled:
  assumes "completion_order order (length vs)"
  shows "promise_all order (map Inr vs) = Some (Inr vs)"
  unfolding promise_all_def
  by (rule settle_all_fulfilled) (use completion_order_set [OF assms] in auto)

lemma promise_all_settles:
  assumes "completion_order order (length rs)"
  shows "(\<exists>vs. rs = map Inr vs \<and> promise_all order rs = Some (Inr vs)) \<or>
         (\<exists>e. Inl e \<in> set rs \<and> promise_all order rs = Some (Inl e))"
proof (cases "\<exists>i<length rs. isl (rs ! i)")
  case True
  with completion_order_set [OF assms] have "\<exists>i\<in>set order. i < length rs \<and> isl (rs ! i)" by auto
  from settle_all_rejected [OF this] show ?thesis
    unfolding promise_all_def by blast
next
  case False
  then have "rs = map Inr (map projr rs)"
    by (auto simp: list_eq_iff_nth_eq isl_def)
  moreover from assms have "completion_order order (length (map projr rs))" by simp
  ultimately show ?thesis using promise_all_fulfilled by metis
qed

lemma windows_step:
  "0 < c \<Longrightarrow> i < length xs \<Longrightarrow>
   windows c (drop i xs) = slice xs i (i + c) # windows c (drop (i + c) xs)"
  by (subst windows.simps) (simp add: slice_def add.commute)

lemma windows_Nil [simp]: "windows c [] = []"
  by (simp add: windows.simps)

lemma windows_done: "length xs \<le> i \<Longrightarrow> windows c (drop i xs) = []"
  by (subst windows.simps) simp

lemma concat_windows: "0 < c \<Longrightarrow> concat (windows c xs) = xs"
proof (induction c xs rule: windows.induct)
  case (1 c xs)
  then show ?case by (subst windows.simps) auto
qed

lemma windows_bounds: "w \<in> set (windows c xs) \<Longrightarrow> w \<noteq> [] \<and> length w \<le> c"
proof (induction c xs rule: windows.induct)
  case (1 c xs)
  show ?case
  proof (cases "c = 0 \<or> xs = []")
    case True
    with 1 show ?thesis by (simp add: windows.simps)
  next
    case False
    with "1.prems" have "w = take c xs \<or> w \<in> set (windows c (drop c xs))"
      by (subst (asm) windows.simps) auto
    with False "1.IH" show ?thesis by auto
  qed
qed

lemma ceil_div_step:
  fixes c n :: nat
  assumes "0 < c" and "0 < n"
  shows "Suc ((n - c + c - 1) div c) = (n + c - 1) div c"
proof (cases "c \<le> n")
  case True
  then have a: "n - c + c - 1 = n - 1" by arith
  from assms have "n + c - 1 = (n - 1) + c" by arith
  then have "(n + c - 1) div c = Suc ((n - 1) div c)"
    using assms(1) by (simp only: div_add_self2)
  with a show ?thesis by (simp only:)
next
  case False
  then have a: "n - c + c - 1 = c - 1" by arith
  have "(c - 1) div c = 0" using assms(1) by simp
  moreover have "(n + c - 1) div c = 1"
  proof (rule div_nat_eqI)
    show "c * 1 \<le> n + c - 1" using assms by simp
    show "n + c - 1 < c * Suc 1" using False assms by simp
  qed
  ultimately show ?thesis using a by simp
qed

lemma length_windows: "0 < c \<Longrightarrow> length (windows c xs) = (length xs + c - 1) div c"
proof (induction c xs rule: windows.induct)
  case (1 c xs)
  show ?case
  proof (cases "xs = []")
    case True
    with 1 show ?thesis by (simp add: windows.simps)
  next
    case False
    with 1 have ih: "length (windows c (drop c xs)) = (length xs - c + c - 1) div c" by simp
    from False have pos: "0 < length xs" by simp
    have "length (windows c xs) = Suc ((length xs - c + c - 1) div c)"
      using False "1.prems" ih by (subst windows.simps) simp
    with ceil_div_step [OF "1.prems" pos] show ?thesis by (simp only:)
  qed
qed

lemma drop_slice: "drop i xs = slice xs i (i + c) @ drop (i + c) xs"
  by (simp add: slice_def add.commute) (metis append_take_drop_id drop_drop)

lemma getVoice_loop_result:
  assumes "0 < c" and "window_orders order chunks c" and "c dvd i"
  shows "((\<forall>x\<in>set (drop i chunks). \<not> isl (g x)) \<and>
          getVoice_loop g order chunks c i acc tr =
            Some (tr @ map Dispatch (windows c (drop i chunks)),
                  Inr (acc @ map (projr \<circ> g) (drop i chunks)))) \<or>
         (\<exists>e pre b. getVoice_loop g order chunks c i acc tr = Some (tr @ pre @ [Dispatch b], Inl e) \<and>
            Inl e \<in> g ` set b \<and> set b \<subseteq> set chunks)"
  using assms(3)
proof (induction "length chunks - i" arbitrary: i acc tr rule: less_induct)
  case less
  show ?case
  proof (cases "i < length chunks")
    case False
    then show ?thesis
      by (subst getVoice_loop.simps) (simp add: windows_done)
  next
    case True
    let ?batch = "slice chunks i (i + c)"
    have sub: "set ?batch \<subseteq> set chunks"
      by (auto simp: slice_def dest!: in_set_takeD in_set_dropD)
    from assms(2) True less.prems have "completion_order (order i) (length (map g ?batch))"
      by (simp add: window_orders_def)
    from promise_all_settles [OF this] show ?thesis
    proof (elim disjE exE conjE)
      fix e assume e: "Inl e \<in> set (map g ?batch)"
        and p: "promise_all (order i) (map g ?batch) = Some (Inl e)"
      from True p have "getVoice_loop g order chunks c i acc tr = Some (tr @ [] @ [Dispatch ?batch], Inl e)"
        by (subst getVoice_loop.simps) (simp add: Let_def)
      moreover from e have "Inl e \<in> g ` set ?batch" by simp
      ultimately show ?thesis using sub by blast
    next
      fix vs assume vs: "map g ?batch = map Inr vs"
        and p: "promise_all (order i) (map g ?batch) = Some (Inr vs)"
      from vs have vs': "vs = map (projr \<circ> g) ?batch"
        by (metis (no_types, lifting) comp_apply list.map_comp map_idI sum.sel(2))
      from vs have okb: "\<forall>x\<in>set ?batch. \<not> isl (g x)"
        by (metis (no_types, lifting) imageE isl_def list.set_map sum.disc(2) image_eqI)
      have step: "getVoice_loop g order chunks c i acc tr =
          getVoice_loop g order chunks c (i + c) (acc @ vs) (tr @ [Dispatch ?batch])"
        using True p by (subst getVoice_loop.simps) (simp add: Let_def)
      from True assms(1) have m: "length chunks - (i + c) < length chunks - i" by simp
      from less.prems have d: "c dvd i + c" by simp
      from less.hyps [OF m d, of "acc @ vs" "tr @ [Dispatch ?batch]"] show ?thesis
      proof (elim disjE exE conjE)
        assume a: "\<forall>x\<in>set (drop (i + c) chunks). \<not> isl (g x)"
          and r: "getVoice_loop g order chunks c (i + c) (acc @ vs) (tr @ [Dispatch ?batch]) =
            Some ((tr @ [Dispatch ?batch]) @ map Dispatch (windows c (drop (i + c) chunks)),
                  Inr ((acc @ vs) @ map (projr \<circ> g) (drop (i + c) chunks)))"
        have "\<forall>x\<in>set (drop i chunks). \<not> isl (g x)"
          using a okb by (subst drop_slice [of i chunks c]) auto
        moreover have "getVoice_loop g order chunks c i acc tr =
            Some (tr @ map Dispatch (windows c (drop i chunks)),
                  Inr (acc @ map (projr \<circ> g) (drop i chunks)))"
          using step r vs' windows_step [OF assms(1) True] drop_slice [of i chunks c] by simp
        ultimately show ?thesis by blast
      next
        fix e pre b
        assume r: "getVoice_loop g order chunks c (i + c) (acc @ vs) (tr @ [Dispatch ?batch]) =
            Some ((tr @ [Dispatch ?batch]) @ pre @ [Dispatch b], Inl e)"
          and e: "Inl e \<in> g ` set b" and b: "set b \<subseteq> set chunks"
        from step r have "getVoice_loop g order chunks c i acc tr =
            Some (tr @ (Dispatch ?batch # pre) @ [Dispatch b], Inl e)" by simp
        with e b show ?thesis by blast
      qed
    qed
  qed
qed

lemma writes_of_append: "writes_of (a @ b) = writes_of a @ writes_of b"
  by (induction a rule: writes_of.induct) simp_all

lemma writes_of_numbered: "writes_of (numbered_writes write_ok n blobs :: 'c event list) = blobs"
  by (induction blobs arbitrary: n) simp_all

lemma write_blobs_numbered:
  "write_blobs write_ok blobs tr = tr @ numbered_writes write_ok (length (writes_of tr)) blobs"
  by (induction blobs arbitrary: tr) (simp_all add: writes_of_append)

lemma writes_of_window_events:
  "writes_of (window_events audio write_ok n ws) = map audio (concat ws)"
  by (induction ws arbitrary: n) (simp_all add: writes_of_append writes_of_numbered)

lemma accepted_append: "accepted (a @ b) = accepted a @ accepted b"
  by (induction a rule: accepted.induct) simp_all

lemma accepted_numbered:
  "\<forall>n. write_ok n \<Longrightarrow> accepted (numbered_writes write_ok n blobs :: 'c event list) = concat blobs"
  by (induction blobs arbitrary: n) simp_all

lemma accepted_window_events:
  "\<forall>n. write_ok n \<Longrightarrow>
   accepted (window_events audio write_ok n ws) = concat (map audio (concat ws))"
  by (induction ws arbitrary: n) (simp_all add: accepted_append accepted_numbered)

lemma pipe_loop_result:
  assumes "0 < c" and "window_orders order chunks c" and "c dvd i"
  shows "((\<forall>x\<in>set (drop i chunks). \<not> isl (g x)) \<and>
          pipe_loop g write_ok order chunks c i tr =
            Some (tr @ window_events (projr \<circ> g) write_ok (length (writes_of tr))
                         (windows c (drop i chunks)), Inr ())) \<or>
         (\<exists>e pre b. pipe_loop g write_ok order chunks c i tr = Some (tr @ pre @ [Dispatch b], Inl e) \<and>
            Inl e \<in> g ` set b \<and> set b \<subseteq> set chunks)"
  using assms(3)
proof (induction "length chunks - i" arbitrary: i tr rule: less_induct)
  case less
  show ?case
  proof (cases "i < length chunks")
    case False
    then show ?thesis
      by (subst pipe_loop.simps) (simp add: windows_done)
  next
    case True
    let ?batch = "slice chunks i (i + c)"
    have sub: "set ?batch \<subseteq> set chunks"
      by (auto simp: slice_def dest!: in_set_takeD in_set_dropD)
    from assms(2) True less.prems have "completion_order (order i) (length (map g ?batch))"
      by (simp add: window_orders_def)
    from promise_all_settles [OF this] show ?thesis
    proof (elim disjE exE conjE)
      fix e assume e: "Inl e \<in> set (map g ?batch)"
        and p: "promise_all (order i) (map g ?batch) = Some (Inl e)"
      from True p have "pipe_loop g write_ok order chunks c i tr = Some (tr @ [] @ [Dispatch ?batch], Inl e)"
        by (subst pipe_loop.simps) (simp add: Let_def)
      moreover from e have "Inl e \<in> g ` set ?batch" by simp
      ultimately show ?thesis using sub by blast
    next
      fix vs assume vs: "map g ?batch = map Inr vs"
        and p: "promise_all (order i) (map g ?batch) = Some (Inr vs)"
      from vs have vs': "vs = map (projr \<circ> g) ?batch"
        by (metis (no_types, lifting) comp_apply list.map_comp map_idI sum.sel(2))
      from vs have okb: "\<forall>x\<in>set ?batch. \<not> isl (g x)"
        by (metis (no_types, lifting) imageE isl_def list.set_map sum.disc(2) image_eqI)
      let ?tr = "write_blobs write_ok vs (tr @ [Dispatch ?batch])"
      have step: "pipe_loop g write_ok order chunks c i tr =
          pipe_loop g write_ok order chunks c (i + c) ?tr"
        using True p by (subst pipe_loop.simps) (simp add: Let_def)
      have tr: "?tr = tr @ Dispatch ?batch # numbered_writes write_ok (length (writes_of tr)) vs"
        by (simp add: write_blobs_numbered writes_of_append)
      have n: "length (writes_of ?tr) = length (writes_of tr) + length ?batch"
        unfolding tr by (simp add: writes_of_append writes_of_numbered) (simp add: vs')
      from True assms(1) have m: "length chunks - (i + c) < length chunks - i" by simp
      from less.prems have d: "c dvd i + c" by simp
      from less.hyps [OF m d, of ?tr] show ?thesis
      proof (elim disjE exE conjE)
        assume a: "\<forall>x\<in>set (drop (i + c) chunks). \<not> isl (g x)"
          and r: "pipe_loop g write_ok order chunks c (i + c) ?tr =
            Some (?tr @ window_events (projr \<circ> g) write_ok (length (writes_of ?tr))
                          (windows c (drop (i + c) chunks)), Inr ())"
        have "\<forall>x\<in>set (drop i chunks). \<not> isl (g x)"
          using a okb by (subst drop_slice [of i chunks c]) auto
        moreover have "pipe_loop g write_ok order chunks c i tr =
            Some (tr @ window_events (projr \<circ> g) write_ok (length (writes_of tr))
                         (windows c (drop i chunks)), Inr ())"
        proof -
          have "?tr @ window_events (projr \<circ> g) write_ok (length (writes_of tr) + length ?batch)
                  (windows c (drop (i + c) chunks)) =
                tr @ window_events (projr \<circ> g) write_ok (length (writes_of tr))
                  (?batch # windows c (drop (i + c) chunks))"
            unfolding tr by (simp add: vs' [symmetric])
          then show ?thesis
            unfolding step r n windows_step [OF assms(1) True] by (simp only:)
        qed
        ultimately show ?thesis by blast
      next
        fix e pre b
        assume r: "pipe_loop g write_ok order chunks c (i + c) ?tr =
            Some (?tr @ pre @ [Dispatch b], Inl e)"
          and e: "Inl e \<in> g ` set b" and b: "set b \<subseteq> set chunks"
        from step r have "pipe_loop g write_ok order chunks c i tr =
            Some (tr @ (Dispatch ?batch # numbered_writes write_ok (length (writes_of tr)) vs @ pre)
                    @ [Dispatch b], Inl e)"
          by (simp add: tr)
        with e b show ?thesis by blast
      qed
    qed
  qed
qed

lemma getVoice_loop_start:
  assumes "1 \<le> c" and "window_orders order chunks c"
  shows "((\<forall>x\<in>set chunks. \<not> isl (g x)) \<and>
          getVoice_loop g order chunks c 0 [] [] =
            Some (map Dispatch (windows c chunks), Inr (map (projr \<circ> g) chunks))) \<or>
         (\<exists>e pre b. getVoice_loop g order chunks c 0 [] [] = Some (pre @ [Dispatch b], Inl e) \<and>
            Inl e \<in> g ` set b \<and> set b \<subseteq> set chunks)"
  using getVoice_loop_result [of c order chunks 0 g "[]" "[]"] assms by simp

lemma pipe_loop_start:
  assumes "1 \<le> c" and "window_orders order chunks c"
  shows "((\<forall>x\<in>set chunks. \<not> isl (g x)) \<and>
          pipe_loop g write_ok order chunks c 0 [] =
            Some (window_events (projr \<circ> g) write_ok 0 (windows c chunks), Inr ())) \<or>
         (\<exists>e pre b. pipe_loop g write_ok order chunks c 0 [] = Some (pre @ [Dispatch b], Inl e) \<and>
            Inl e \<in> g ` set b \<and> set b \<subseteq> set chunks)"
  using pipe_loop_result [of c order chunks 0 g write_ok "[]"] assms by simp

lemma getVoice_loop_windows:
  assumes "0 < c" and "window_orders order chunks c" and "c dvd i"
  shows "((\<forall>x\<in>set (drop i chunks). \<not> isl (g x)) \<and>
          getVoice_loop g order chunks c i acc tr =
            Some (tr @ map Dispatch (windows c (drop i chunks)),
                  Inr (acc @ map (projr \<circ> g) (drop i chunks)))) \<or>
         (\<exists>e ws1 b ws2. windows c (drop i chunks) = ws1 @ b # ws2 \<and>
            (\<forall>x\<in>set (concat ws1). \<not> isl (g x)) \<and> Inl e \<in> g ` set b \<and>
            getVoice_loop g order chunks c i acc tr = Some (tr @ map Dispatch (ws1 @ [b]), Inl e))"
  using assms(3)
proof (induction "length chunks - i" arbitrary: i acc tr rule: less_induct)
  case less
  show ?case
  proof (cases "i < length chunks")
    case False
    then show ?thesis
      by (subst getVoice_loop.simps) (simp add: windows_done)
  next
    case True
    let ?batch = "slice chunks i (i + c)"
    note ws = windows_step [OF assms(1) True]
    from assms(2) True less.prems have "completion_order (order i) (length (map g ?batch))"
      by (simp add: window_orders_def)
    from promise_all_settles [OF this] show ?thesis
    proof (elim disjE exE conjE)
      fix e assume e: "Inl e \<in> set (map g ?batch)"
        and p: "promise_all (order i) (map g ?batch) = Some (Inl e)"
      from True p have "getVoice_loop g order chunks c i acc tr =
          Some (tr @ map Dispatch ([] @ [?batch]), Inl e)"
        by (subst getVoice_loop.simps) (simp add: Let_def)
      moreover from e have "Inl e \<in> g ` set ?batch" by simp
      moreover have "windows c (drop i chunks) = [] @ ?batch # windows c (drop (i + c) chunks)"
        using ws by simp
      moreover have "\<forall>x\<in>set (concat ([] :: 'a list list)). \<not> isl (g x)" by simp
      ultimately show ?thesis by blast
    next
      fix vs assume vs: "map g ?batch = map Inr vs"
        and p: "promise_all (order i) (map g ?batch) = Some (Inr vs)"
      from vs have vs': "vs = map (projr \<circ> g) ?batch"
        by (metis (no_types, lifting) comp_apply list.map_comp map_idI sum.sel(2))
      from vs have okb: "\<forall>x\<in>set ?batch. \<not> isl (g x)"
        by (metis (no_types, lifting) imageE isl_def list.set_map sum.disc(2) image_eqI)
      have step: "getVoice_loop g order chunks c i acc tr =
          getVoice_loop g order chunks c (i + c) (acc @ vs) (tr @ [Dispatch ?batch])"
        using True p by (subst getVoice_loop.simps) (simp add: Let_def)
      from True assms(1) have m: "length chunks - (i + c) < length chunks - i" by simp
      from less.prems have d: "c dvd i + c" by simp
      from less.hyps [OF m d, of "acc @ vs" "tr @ [Dispatch ?batch]"] show ?thesis
      proof (elim disjE exE conjE)
        assume a: "\<forall>x\<in>set (drop (i + c) chunks). \<not> isl (g x)"
          and r: "getVoice_loop g order chunks c (i + c) (acc @ vs) (tr @ [Dispatch ?batch]) =
            Some ((tr @ [Dispatch ?batch]) @ map Dispatch (windows c (drop (i + c) chunks)),
                  Inr ((acc @ vs) @ map (projr \<circ> g) (drop (i + c) chunks)))"
        have "\<forall>x\<in>set (drop i chunks). \<not> isl (g x)"
          using a okb by (subst drop_slice [of i chunks c]) auto
        moreover have "getVoice_loop g order chunks c i acc tr =
            Some (tr @ map Dispatch (windows c (drop i chunks)),
                  Inr (acc @ map (projr \<circ> g) (drop i chunks)))"
          using step r vs' ws drop_slice [of i chunks c] by simp
        ultimately show ?thesis by blast
      next
        fix e ws1 b ws2
        assume w: "windows c (drop (i + c) chunks) = ws1 @ b # ws2"
          and a: "\<forall>x\<in>set (concat ws1). \<not> isl (g x)"
          and e: "Inl e \<in> g ` set b"
          and r: "getVoice_loop g order chunks c (i + c) (acc @ vs) (tr @ [Dispatch ?batch]) =
            Some ((tr @ [Dispatch ?batch]) @ map Dispatch (ws1 @ [b]), Inl e)"
        from step r have "getVoice_loop g order chunks c i acc tr =
            Some (tr @ map Dispatch ((?batch # ws1) @ [b]), Inl e)" by simp
        moreover from ws w have "windows c (drop i chunks) = (?batch # ws1) @ b # ws2" by simp
        moreover from a okb have "\<forall>x\<in>set (concat (?batch # ws1)). \<not> isl (g x)" by auto
        ultimately show ?thesis using e by blast
      qed
    qed
  qed
qed

lemma pipe_loop_windows:
  assumes "0 < c" and "window_orders order chunks c" and "c dvd i"
  shows "((\<forall>x\<in>set (drop i chunks). \<not> isl (g x)) \<and>
          pipe_loop g write_ok order chunks c i tr =
            Some (tr @ window_events (projr \<circ> g) write_ok (length (writes_of tr))
                         (windows c (drop i chunks)), Inr ())) \<or>
         (\<exists>e ws1 b ws2. windows c (drop i chunks) = ws1 @ b # ws2 \<and>
            (\<forall>x\<in>set (concat ws1). \<not> isl (g x)) \<and> Inl e \<in> g ` set b \<and>
            pipe_loop g write_ok order chunks c i tr =
              Some (tr @ window_events (projr \<circ> g) write_ok (length (writes_of tr)) ws1
                       @ [Dispatch b], Inl e))"
  using assms(3)
proof (induction "length chunks - i" arbitrary: i tr rule: less_induct)
  case less
  show ?case
  proof (cases "i < length chunks")
    case False
    then show ?thesis
      by (subst pipe_loop.simps) (simp add: windows_done)
  next
    case True
    let ?batch = "slice chunks i (i + c)"
    note ws = windows_step [OF assms(1) True]
    from assms(2) True less.prems have "completion_order (order i) (length (map g ?batch))"
      by (simp add: window_orders_def)
    from promise_all_settles [OF this] show ?thesis
    proof (elim disjE exE conjE)
      fix e assume e: "Inl e \<in> set (map g ?batch)"
        and p: "promise_all (order i) (map g ?batch) = Some (Inl e)"
      from True p have "pipe_loop g write_ok order chunks c i tr =
          Some (tr @ window_events (projr \<circ> g) write_ok (length (writes_of tr)) []
                  @ [Dispatch ?batch], Inl e)"
        by (subst pipe_loop.simps) (simp add: Let_def)
      moreover from e have "Inl e \<in> g ` set ?batch" by simp
      moreover have "windows c (drop i chunks) = [] @ ?batch # windows c (drop (i + c) chunks)"
        using ws by simp
      moreover have "\<forall>x\<in>set (concat ([] :: 'a list list)). \<not> isl (g x)" by simp
      ultimately show ?thesis by blast
    next
      fix vs assume vs: "map g ?batch = map Inr vs"
        and p: "promise_all (order i) (map g ?batch) = Some (Inr vs)"
      from vs have vs': "vs = map (projr \<circ> g) ?batch"
        by (metis (no_types, lifting) comp_apply list.map_comp map_idI sum.sel(2))
      from vs have okb: "\<forall>x\<in>set ?batch. \<not> isl (g x)"
        by (metis (no_types, lifting) imageE isl_def list.set_map sum.disc(2) image_eqI)
      let ?tr = "write_blobs write_ok vs (tr @ [Dispatch ?batch])"
      have step: "pipe_loop g write_ok order chunks c i tr =
          pipe_loop g write_ok order chunks c (i + c) ?tr"
        using True p by (subst pipe_loop.simps) (simp add: Let_def)
      have tr: "?tr = tr @ Dispatch ?batch # numbered_writes write_ok (length (writes_of tr)) vs"
        by (simp add: write_blobs_numbered writes_of_append)
      have n: "length (writes_of ?tr) = length (writes_of tr) + length ?batch"
        unfolding tr by (simp add: writes_of_append writes_of_numbered) (simp add: vs')
      have ev: "?tr @ window_events (projr \<circ> g) write_ok (length (writes_of tr) + length ?batch) W =
                tr @ window_events (projr \<circ> g) write_ok (length (writes_of tr)) (?batch # W)" for W
        unfolding tr by (simp add: vs' [symmetric])
      from True assms(1) have m: "length chunks - (i + c) < length chunks - i" by simp
      from less.prems have d: "c dvd i + c" by simp
      from less.hyps [OF m d, of ?tr] show ?thesis
      proof (elim disjE exE conjE)
        assume a: "\<forall>x\<in>set (drop (i + c) chunks). \<not> isl (g x)"
          and r: "pipe_loop g write_ok order chunks c (i + c) ?tr =
            Some (?tr @ window_events (projr \<circ> g) write_ok (length (writes_of ?tr))
                          (windows c (drop (i + c) chunks)), Inr ())"
        have "\<forall>x\<in>set (drop i chunks). \<not> isl (g x)"
          using a okb by (subst drop_slice [of i chunks c]) auto
        moreover have "pipe_loop g write_ok order chunks c i tr =
            Some (tr @ window_events (projr \<circ> g) write_ok (length (writes_of tr))
                         (windows c (drop i chunks)), Inr ())"
          using ev [of "windows c (drop (i + c) chunks)"]
          unfolding step r n ws by (simp only:)
        ultimately show ?thesis by blast
      next
        fix e ws1 b ws2
        assume w: "windows c (drop (i + c) chunks) = ws1 @ b # ws2"
          and a: "\<forall>x\<in>set (concat ws1). \<not> isl (g x)"
          and e: "Inl e \<in> g ` set b"
          and r: "pipe_loop g write_ok order chunks c (i + c) ?tr =
            Some (?tr @ window_events (projr \<circ> g) write_ok (length (writes_of ?tr)) ws1
                     @ [Dispatch b], Inl e)"
        have "pipe_loop g write_ok order chunks c i tr =
            Some (tr @ window_events (projr \<circ> g) write_ok (length (writes_of tr)) (?batch # ws1)
                     @ [Dispatch b], Inl e)"
          using ev [of ws1] unfolding step r n by simp
        moreover from ws w have "windows c (drop i chunks) = (?batch # ws1) @ b # ws2" by simp
        moreover from a okb have "\<forall>x\<in>set (concat (?batch # ws1)). \<not> isl (g x)" by auto
        ultimately show ?thesis using e by blast
      qed
    qed
  qed
qed

lemma window_subset:
  assumes "0 < c" and "windows c chunks = ws1 @ b # ws2"
  shows "set b \<subseteq> set chunks"
proof -
  have "set b \<subseteq> set (concat (windows c chunks))" using assms(2) by auto
  then show ?thesis by (simp add: concat_windows [OF assms(1)])
qed

text \<open>
  Claim C1. For \<open>N\<close> chunks and a concurrency \<open>c \<ge> 1\<close> the windows of the chunk list
  are \<open>\<lceil>N/c\<rceil>\<close> consecutive groups of at most \<open>c\<close> chunks, and \<open>getVoice\<close> and
  \<open>pipeChunksToStream\<close> process them strictly one after the other, for every order in
  which the calls of a window complete. When every synthesis call succeeds, every
  window is dispatched in its turn; the buffered response is the concatenation of the
  chunks' audio in chunk order, and the streamed run writes each window's audio in
  chunk order before it dispatches the next window, then closes the sink. A window is
  dispatched only after all calls of all earlier windows have fulfilled: when some call
  fails, the windows dispatched are those before the first window with a failed call,
  all of whose calls fulfilled, and that window; no later window is dispatched, in
  either mode.
\<close>

theorem orchestrator_windows_in_order:
  assumes "1 \<le> c" and "window_orders order chunks c"
  shows "((\<forall>x\<in>set chunks. \<not> isl (g x)) \<longrightarrow>
            getVoice g order chunks c =
              Some (map Dispatch (windows c chunks),
                    AudioResponse (concat (map (projr \<circ> g) chunks))) \<and>
            pipeChunksToStream g write_ok order chunks c =
              Some (window_events (projr \<circ> g) write_ok 0 (windows c chunks) @ [Close], Inr ()) \<and>
            writes_of (window_events (projr \<circ> g) write_ok 0 (windows c chunks) @ [Close]) =
              map (projr \<circ> g) chunks \<and>
            ((\<forall>n. write_ok n) \<longrightarrow>
               streamVoice g write_ok order chunks c =
                 Some (window_events (projr \<circ> g) write_ok 0 (windows c chunks) @ [Close],
                       AudioResponse (concat (map (projr \<circ> g) chunks))))) \<and>
         ((\<exists>x\<in>set chunks. isl (g x)) \<longrightarrow>
            (\<exists>e ws1 b ws2. windows c chunks = ws1 @ b # ws2 \<and>
               (\<forall>x\<in>set (concat ws1). \<not> isl (g x)) \<and> Inl e \<in> g ` set b \<and>
               getVoice g order chunks c =
                 Some (map Dispatch (ws1 @ [b]),
                       ErrorResponse (NonStreamTtsFailed e) 500 ''tts_generation_error'')) \<and>
            (\<exists>e ws1 b ws2. windows c chunks = ws1 @ b # ws2 \<and>
               (\<forall>x\<in>set (concat ws1). \<not> isl (g x)) \<and> Inl e \<in> g ` set b \<and>
               pipeChunksToStream g write_ok order chunks c =
                 Some (window_events (projr \<circ> g) write_ok 0 ws1 @ [Dispatch b, Abort e, Close],
                       Inl (StreamProcessingFailed e)))) \<and>
         length (windows c chunks) = (length chunks + c - 1) div c \<and>
         concat (windows c chunks) = chunks \<and>
         (\<forall>w\<in>set (windows c chunks). w \<noteq> [] \<and> length w \<le> c)"
proof -
  from assms(1) have c: "0 < c" by simp
  note gv = getVoice_loop_windows [OF c assms(2), of 0 g "[]" "[]", simplified]
  note pl = pipe_loop_windows [OF c assms(2), of 0 g write_ok "[]", simplified]
  have ok: "getVoice g order chunks c =
              Some (map Dispatch (windows c chunks),
                    AudioResponse (concat (map (projr \<circ> g) chunks))) \<and>
            pipeChunksToStream g write_ok order chunks c =
              Some (window_events (projr \<circ> g) write_ok 0 (windows c chunks) @ [Close], Inr ()) \<and>
            writes_of (window_events (projr \<circ> g) write_ok 0 (windows c chunks) @ [Close]) =
              map (projr \<circ> g) chunks \<and>
            ((\<forall>n. write_ok n) \<longrightarrow>
               streamVoice g write_ok order chunks c =
                 Some (window_events (projr \<circ> g) write_ok 0 (windows c chunks) @ [Close],
                       AudioResponse (concat (map (projr \<circ> g) chunks))))"
    if all: "\<forall>x\<in>set chunks. \<not> isl (g x)"
  proof -
    have nofail: "\<not> (windows c chunks = ws1 @ b # ws2 \<and> Inl e \<in> g ` set b)" for e ws1 b ws2
    proof
      assume a: "windows c chunks = ws1 @ b # ws2 \<and> Inl e \<in> g ` set b"
      with window_subset [OF c, of chunks ws1 b ws2]
      obtain x where "x \<in> set chunks" and "g x = Inl e" by auto
      with all show False by auto
    qed
    from gv nofail
    have "getVoice_loop g order chunks c 0 [] [] =
        Some (map Dispatch (windows c chunks), Inr (map (projr \<circ> g) chunks))"
      by blast
    then have 1: "getVoice g order chunks c =
        Some (map Dispatch (windows c chunks), AudioResponse (concat (map (projr \<circ> g) chunks)))"
      by (simp add: getVoice_def)
    from pl nofail
    have "pipe_loop g write_ok order chunks c 0 [] =
        Some (window_events (projr \<circ> g) write_ok 0 (windows c chunks), Inr ())"
      by blast
    then have 2: "pipeChunksToStream g write_ok order chunks c =
        Some (window_events (projr \<circ> g) write_ok 0 (windows c chunks) @ [Close], Inr ())"
      by (simp add: pipeChunksToStream_def)
    have 3: "writes_of (window_events (projr \<circ> g) write_ok 0 (windows c chunks) @ [Close]) =
        map (projr \<circ> g) chunks"
      by (simp add: writes_of_append writes_of_window_events concat_windows [OF c])
    have 4: "streamVoice g write_ok order chunks c =
        Some (window_events (projr \<circ> g) write_ok 0 (windows c chunks) @ [Close],
              AudioResponse (concat (map (projr \<circ> g) chunks)))" if "\<forall>n. write_ok n"
      using 2 that
      by (simp add: streamVoice_def accepted_append accepted_window_events concat_windows [OF c])
    from 1 2 3 4 show ?thesis by blast
  qed
  have bad1: "\<exists>e ws1 b ws2. windows c chunks = ws1 @ b # ws2 \<and>
               (\<forall>x\<in>set (concat ws1). \<not> isl (g x)) \<and> Inl e \<in> g ` set b \<and>
               getVoice g order chunks c =
                 Some (map Dispatch (ws1 @ [b]),
                       ErrorResponse (NonStreamTtsFailed e) 500 ''tts_generation_error'')"
    if "\<exists>x\<in>set chunks. isl (g x)"
  proof -
    from gv that obtain e ws1 b ws2 where "windows c chunks = ws1 @ b # ws2"
      "\<forall>x\<in>set (concat ws1). \<not> isl (g x)" "Inl e \<in> g ` set b"
      "getVoice_loop g order chunks c 0 [] [] = Some (map Dispatch (ws1 @ [b]), Inl e)"
      by auto
    then show ?thesis
      by (intro exI [of _ e] exI [of _ ws1] exI [of _ b] exI [of _ ws2])
        (simp add: getVoice_def errorResponse_def)
  qed
  have bad2: "\<exists>e ws1 b ws2. windows c chunks = ws1 @ b # ws2 \<and>
               (\<forall>x\<in>set (concat ws1). \<not> isl (g x)) \<and> Inl e \<in> g ` set b \<and>
               pipeChunksToStream g write_ok order chunks c =
                 Some (window_events (projr \<circ> g) write_ok 0 ws1 @ [Dispatch b, Abort e, Close],
                       Inl (StreamProcessingFailed e))"
    if "\<exists>x\<in>set chunks. isl (g x)"
  proof -
    from pl that obtain e ws1 b ws2 where "windows c chunks = ws1 @ b # ws2"
      "\<forall>x\<in>set (concat ws1). \<not> isl (g x)" "Inl e \<in> g ` set b"
      "pipe_loop g write_ok order chunks c 0 [] =
         Some (window_events (projr \<circ> g) write_ok 0 ws1 @ [Dispatch b], Inl e)"
      by auto
    then show ?thesis
      by (intro exI [of _ e] exI [of _ ws1] exI [of _ b] exI [of _ ws2])
        (simp add: pipeChunksToStream_def)
  qed
  from ok bad1 bad2 length_windows [OF c] concat_windows [OF c] windows_bounds show ?thesis
    by blast
qed

lemmas orchestrator_eval =
  window_orders_def completion_order_def slice_def windows.simps
  getVoice_def getVoice_loop.simps pipeChunksToStream_def pipe_loop.simps streamVoice_def
  promise_all_def errorResponse_def Let_def

text \<open>
  Three chunks with concurrency 2, the two calls of the first window completing in
  reverse order; and the same run with a failing first chunk, where the second window
  is never dispatched.
\<close>

theorem orchestrator_windows_in_order_witness:
  "getVoice (\<lambda>n. Inr [n]) (\<lambda>i. if i = 0 then [1, 0] else [0]) [5, 6, 7 :: nat] 2 =
     Some ([Dispatch [5, 6], Dispatch [7]], AudioResponse [5, 6, 7]) \<and>
   pipeChunksToStream (\<lambda>n. Inr [n]) (\<lambda>n. True) (\<lambda>i. if i = 0 then [1, 0] else [0]) [5, 6, 7 :: nat] 2 =
     Some ([Dispatch [5, 6], Write [5] True, Write [6] True, Dispatch [7], Write [7] True, Close],
           Inr ()) \<and>
   streamVoice (\<lambda>n. Inr [n]) (\<lambda>n. True) (\<lambda>i. if i = 0 then [1, 0] else [0]) [5, 6, 7 :: nat] 2 =
     Some ([Dispatch [5, 6], Write [5] True, Write [6] True, Dispatch [7], Write [7] True, Close],
           AudioResponse [5, 6, 7]) \<and>
   length (windows 2 [5, 6, 7 :: nat]) = 2 \<and>
   getVoice (\<lambda>n. if n = 5 then Inl (RuntimeError ''fetch failed'') else Inr [n])
       (\<lambda>i. if i = 0 then [1, 0] else [0]) [5, 6, 7 :: nat] 2 =
     Some ([Dispatch [5, 6]],
           ErrorResponse (NonStreamTtsFailed (RuntimeError ''fetch failed'')) 500
             ''tts_generation_error'')"
proof -
  have c: "(1::nat) \<le> 2" by simp
  have o: "window_orders (\<lambda>i. if i = 0 then [1, 0] else [0]) [5, 6, 7 :: nat] 2"
    by (simp add: window_orders_def completion_order_def slice_def less_Suc_eq numeral_3_eq_3)
  have g: "\<forall>x\<in>set [5, 6, 7 :: nat]. \<not> isl ((\<lambda>n. Inr [n] :: error + bytes) x)" by simp
  have w: "windows 2 [5, 6, 7 :: nat] = [[5, 6], [7]]"
    by (simp add: windows.simps)
  note ok = orchestrator_windows_in_order [OF c o, of "\<lambda>n. Inr [n]" "\<lambda>n. True",
      THEN conjunct1, THEN mp, OF g]
  note len = orchestrator_windows_in_order [OF c o, of "\<lambda>n. Inr [n]" "\<lambda>n. True",
      THEN conjunct2, THEN conjunct2, THEN conjunct1]
  have bad: "getVoice (\<lambda>n. if n = 5 then Inl (RuntimeError ''fetch failed'') else Inr [n])
       (\<lambda>i. if i = 0 then [1, 0] else [0]) [5, 6, 7 :: nat] 2 =
     Some ([Dispatch [5, 6]],
           ErrorResponse (NonStreamTtsFailed (RuntimeError ''fetch failed'')) 500
             ''tts_generation_error'')"
    by (simp add: orchestrator_eval)
  from ok len bad show ?thesis
    by (simp add: w)
qed

lemma getVoice_fails:
  assumes "1 \<le> c" and "window_orders order chunks c" and "x \<in> set chunks" and "isl (g x)"
  shows "\<exists>tr e. getVoice g order chunks c =
           Some (tr, ErrorResponse (NonStreamTtsFailed e) 500 ''tts_generation_error'') \<and>
           Inl e \<in> g ` set chunks"
proof -
  from getVoice_loop_start [OF assms(1,2), of g] assms(3,4)
  obtain e pre b where "getVoice_loop g order chunks c 0 [] [] = Some (pre @ [Dispatch b], Inl e)"
    "Inl e \<in> g ` set b" "set b \<subseteq> set chunks"
    by blast
  then show ?thesis
    by (auto simp: getVoice_def errorResponse_def)
qed

text \<open>
  Claim C6. In buffered mode, when the provider answers the synthesis call of some
  chunk with a status that is not a success, the caller gets the error response with
  status 500 and code \<open>tts_generation_error\<close> that carries a failure of one of the
  calls. An error response has no audio: nothing of the windows that resolved before
  the failure is returned.
\<close>

theorem getVoice_provider_failure:
  assumes "1 \<le> c" and "window_orders order chunks c" and "x \<in> set chunks"
    and "ep x = Inr (Some e0)" and "fetch e0 x = Inr resp" and "\<not> ok resp"
  shows "\<exists>tr e. getVoice (\<lambda>txt. getAudioChunk (ep txt) fetch txt) order chunks c =
           Some (tr, ErrorResponse (NonStreamTtsFailed e) 500 ''tts_generation_error'') \<and>
           Inl e \<in> (\<lambda>txt. getAudioChunk (ep txt) fetch txt) ` set chunks"
proof -
  from assms(4-6) have "isl (getAudioChunk (ep x) fetch x)"
    by (simp add: getAudioChunk_def)
  from getVoice_fails [OF assms(1,2,3), of "\<lambda>txt. getAudioChunk (ep txt) fetch txt", OF this]
  show ?thesis .
qed

text \<open>
  The third chunk fails in the second window; the audio of the first window is not
  returned.
\<close>

theorem getVoice_provider_failure_witness:
  "getVoice (\<lambda>txt. getAudioChunk (Inr (Some demo_endpoint)) demo_fetch txt)
      (\<lambda>i. if i = 0 then [1, 0] else [0]) [5, 6, 7 :: nat] 2 =
     Some ([Dispatch [5, 6], Dispatch [7]],
           ErrorResponse (NonStreamTtsFailed (EdgeTtsApiError 429 '''' '''')) 500 ''tts_generation_error'')"
proof -
  have c: "(1::nat) \<le> 2" by simp
  have o: "window_orders (\<lambda>i. if i = 0 then [1, 0] else [0]) [5, 6, 7 :: nat] 2"
    by (simp add: window_orders_def completion_order_def slice_def less_Suc_eq numeral_3_eq_3)
  have x: "(7::nat) \<in> set [5, 6, 7]" by simp
  have f: "demo_fetch demo_endpoint 7 =
      Inr \<lparr>ok = False, status = 429, statusText = '''', body_text = '''', body_blob = [7]\<rparr>"
    by (simp add: demo_fetch_def)
  have n: "\<not> ok \<lparr>ok = False, status = 429, statusText = '''', body_text = '''', body_blob = [7]\<rparr>"
    by simp
  from getVoice_provider_failure [of 2 _ _ 7 "\<lambda>_. Inr (Some demo_endpoint)" demo_endpoint demo_fetch,
      OF c o x refl f n]
  obtain tr e where r: "getVoice (\<lambda>txt. getAudioChunk (Inr (Some demo_endpoint)) demo_fetch txt)
      (\<lambda>i. if i = 0 then [1, 0] else [0]) [5, 6, 7 :: nat] 2 =
      Some (tr, ErrorResponse (NonStreamTtsFailed e) 500 ''tts_generation_error'')"
    by blast
  have "getVoice (\<lambda>txt. getAudioChunk (Inr (Some demo_endpoint)) demo_fetch txt)
      (\<lambda>i. if i = 0 then [1, 0] else [0]) [5, 6, 7 :: nat] 2 =
     Some ([Dispatch [5, 6], Dispatch [7]],
           ErrorResponse (NonStreamTtsFailed (EdgeTtsApiError 429 '''' '''')) 500 ''tts_generation_error'')"
    by (simp add: orchestrator_eval getAudioChunk_def demo_fetch_def)
  with r show ?thesis by simp
qed

text \<open>
  Claim C3, as the code has it. In streamed mode with concurrency \<open>c \<ge> 1\<close> the run
  ends and its last action on the sink is \<open>close\<close>, on the normal and on the failed
  path. It fails exactly when a synthesis call fails: then the batch of that call is the
  last one dispatched, the sink is aborted with the failure and closed, and the failure
  goes to the caller. The answers of the sink to the writes play no part: when every
  synthesis call succeeds every window is dispatched and written, whatever \<open>write_ok\<close>
  says.
\<close>

theorem pipeChunksToStream_closes:
  assumes "1 \<le> c" and "window_orders order chunks c"
  shows "\<exists>tr res. pipeChunksToStream g write_ok order chunks c = Some (tr, res) \<and> last tr = Close \<and>
           (case res of
              Inr u \<Rightarrow> (\<forall>x\<in>set chunks. \<not> isl (g x)) \<and>
                tr = window_events (projr \<circ> g) write_ok 0 (windows c chunks) @ [Close]
            | Inl err \<Rightarrow> \<exists>e pre b. err = StreamProcessingFailed e \<and>
                tr = pre @ [Dispatch b, Abort e, Close] \<and> Inl e \<in> g ` set b \<and> set b \<subseteq> set chunks)"
proof -
  from pipe_loop_start [OF assms, of g write_ok] show ?thesis
  proof (elim disjE exE conjE)
    assume "\<forall>x\<in>set chunks. \<not> isl (g x)"
      and "pipe_loop g write_ok order chunks c 0 [] =
        Some (window_events (projr \<circ> g) write_ok 0 (windows c chunks), Inr ())"
    then show ?thesis by (simp add: pipeChunksToStream_def)
  next
    fix e pre b
    assume "pipe_loop g write_ok order chunks c 0 [] = Some (pre @ [Dispatch b], Inl e)"
      and "Inl e \<in> g ` set b" and "set b \<subseteq> set chunks"
    then show ?thesis by (simp add: pipeChunksToStream_def)
  qed
qed

text \<open>
  The second of three chunks fails with concurrency 1: the third chunk is never
  dispatched.
\<close>

theorem pipeChunksToStream_closes_witness:
  "pipeChunksToStream (\<lambda>n. if n = 6 then Inl (RuntimeError ''fetch failed'') else Inr [n])
      (\<lambda>n. True) (\<lambda>i. [0]) [5, 6, 7 :: nat] 1 =
     Some ([Dispatch [5], Write [5] True, Dispatch [6], Abort (RuntimeError ''fetch failed''), Close],
           Inl (StreamProcessingFailed (RuntimeError ''fetch failed'')))"
proof -
  have c: "(1::nat) \<le> 1" by simp
  have o: "window_orders (\<lambda>i. [0]) [5, 6, 7 :: nat] 1"
    by (simp add: window_orders_def completion_order_def slice_def less_Suc_eq numeral_3_eq_3)
  let ?g = "\<lambda>n::nat. if n = 6 then Inl (RuntimeError ''fetch failed'') else Inr [n]"
  from pipeChunksToStream_closes [OF c o, of ?g "\<lambda>n. True"]
  obtain tr res where r: "pipeChunksToStream ?g (\<lambda>n. True) (\<lambda>i. [0]) [5, 6, 7 :: nat] 1 = Some (tr, res)"
    "last tr = Close"
    by blast
  have "pipeChunksToStream ?g (\<lambda>n. True) (\<lambda>i. [0]) [5, 6, 7 :: nat] 1 =
     Some ([Dispatch [5], Write [5] True, Dispatch [6], Abort (RuntimeError ''fetch failed''), Close],
           Inl (StreamProcessingFailed (RuntimeError ''fetch failed'')))"
    by (simp add: orchestrator_eval)
  with r show ?thesis by simp
qed

text \<open>
  Claim C3 as stated fails: the sink refuses the first write, and the run still
  dispatches the next window and returns normally.
\<close>

theorem pipeChunksToStream_write_failure_counterexample:
  "pipeChunksToStream (\<lambda>n. Inr [n]) (\<lambda>n. False) (\<lambda>i. [0]) [5, 6 :: nat] 1 =
     Some ([Dispatch [5], Write [5] False, Dispatch [6], Write [6] False, Close], Inr ())"
  by (simp add: orchestrator_eval)

section \<open>Properties of the credential manager\<close>

lemma refresh_coherent: "refresh hs = Inr info' \<Longrightarrow> coherent info'"
  by (cases hs rule: refresh.cases) (auto simp: coherent_def)

lemma refresh_granted:
  "refresh hs = Inr info' \<Longrightarrow> \<exists>data exp. hs = Granted data (Inr exp) \<and> endpoint info' = Some data"
  by (cases hs rule: refresh.cases) auto

lemma coherent_has_token: "coherent info \<Longrightarrow> has_token info \<Longrightarrow> endpoint info \<noteq> None"
  by (auto simp: coherent_def has_token_def split: option.splits)

text \<open>
  Claim C5, as the code has it. Started on a coherent cache, \<open>getEndpoint\<close> returns a
  credential in three cases only: the cached one while it is valid (the clock is more
  than five minutes before its expiry); the one a successful handshake has just
  issued, which is cached and returned without a look at its expiry; the cached one,
  possibly stale, when the handshake fails and the cache holds a token. A failed
  handshake with a cached token is never an error for the caller; a failed handshake
  without one is an error, and the cache stays as it was.
\<close>

theorem getEndpoint_credential:
  assumes "getEndpoint now hs info = (res, info')" and "coherent info"
  shows "(\<forall>ep. res = Inr ep \<longrightarrow>
            ep \<noteq> None \<and>
            ((token_valid now info \<and> ep = endpoint info \<and> info' = info) \<or>
             (\<not> token_valid now info \<and>
                (\<exists>data exp. hs = Granted data (Inr exp) \<and> ep = Some data \<and>
                   info' = \<lparr>endpoint = Some data, token = Some (endpoint_t data), expiredAt = exp\<rparr>)) \<or>
             (\<not> token_valid now info \<and> isl (refresh hs) \<and> has_token info \<and>
                ep = endpoint info \<and> info' = info))) \<and>
         (isl (refresh hs) \<and> has_token info \<longrightarrow> res = Inr (endpoint info) \<and> info' = info) \<and>
         (isl (refresh hs) \<and> \<not> has_token info \<longrightarrow>
            (\<exists>e. refresh hs = Inl e \<and> res = Inl (EndpointFailed e)) \<and> info' = info) \<and>
         coherent info'"
proof (cases "token_valid now info")
  case True
  then have ht: "has_token info" by (simp add: token_valid_def)
  from True assms(1) have "res = Inr (endpoint info)" "info' = info"
    by (auto simp: getEndpoint_def)
  with True ht assms(2) coherent_has_token show ?thesis by auto
next
  case False
  show ?thesis
  proof (cases "refresh hs")
    case (Inr new)
    from refresh_granted [OF Inr] obtain data exp where
      hs: "hs = Granted data (Inr exp)" by blast
    with False assms(1) have "res = Inr (Some data)"
      "info' = \<lparr>endpoint = Some data, token = Some (endpoint_t data), expiredAt = exp\<rparr>"
      by (auto simp: getEndpoint_def complete_refresh_def)
    with False hs show ?thesis by (auto simp: coherent_def)
  next
    case (Inl e)
    show ?thesis
    proof (cases "has_token info")
      case True
      with False Inl assms(1) have "res = Inr (endpoint info)" "info' = info"
        by (auto simp: getEndpoint_def complete_refresh_def)
      with False True Inl assms(2) coherent_has_token show ?thesis by auto
    next
      case nt: False
      with False Inl assms(1) have "res = Inl (EndpointFailed e)" "info' = info"
        by (auto simp: getEndpoint_def complete_refresh_def)
      with False nt Inl assms(2) show ?thesis by auto
    qed
  qed
qed

text \<open>
  A handshake answered with status 503: the stale credential is served when there is
  one, the call fails when there is none.
\<close>

theorem getEndpoint_credential_witness:
  "getEndpoint 1700000000000 (HttpFailure 503 ''Service Unavailable'' '''') stale_info =
     (Inr (Some demo_endpoint), stale_info) \<and>
   getEndpoint 1700000000000 (HttpFailure 503 ''Service Unavailable'' '''') initial_tokenInfo =
     (Inl (EndpointFailed (EndpointHttpError 503 ''Service Unavailable'' '''')), initial_tokenInfo)"
proof -
  let ?hs = "HttpFailure 503 ''Service Unavailable'' ''''"
  have c: "coherent stale_info" "coherent initial_tokenInfo"
    by (simp_all add: coherent_def stale_info_def initial_tokenInfo_def demo_endpoint_def)
  have f: "isl (refresh ?hs)" "refresh ?hs = Inl (EndpointHttpError 503 ''Service Unavailable'' '''')"
    by simp_all
  have h: "has_token stale_info" "\<not> has_token initial_tokenInfo" "endpoint stale_info = Some demo_endpoint"
    by (simp_all add: has_token_def stale_info_def initial_tokenInfo_def)
  obtain r1 i1 where 1: "getEndpoint 1700000000000 ?hs stale_info = (r1, i1)" by fastforce
  obtain r2 i2 where 2: "getEndpoint 1700000000000 ?hs initial_tokenInfo = (r2, i2)" by fastforce
  from getEndpoint_credential [OF 1 c(1)] getEndpoint_credential [OF 2 c(2)] f h 1 2
  show ?thesis by simp
qed

text \<open>
  Claim C5 as stated fails: a handshake succeeds with a token that expires 100 seconds
  later. The credential is returned although it is inside the five minutes before its
  expiry, and no refresh failed.
\<close>

theorem getEndpoint_fresh_not_valid_counterexample:
  "getEndpoint 1700000000000 (Granted demo_endpoint (Inr (Some 1700000100))) initial_tokenInfo =
     (Inr (Some demo_endpoint),
      \<lparr>endpoint = Some demo_endpoint, token = Some ''tok'', expiredAt = Some 1700000100\<rparr>) \<and>
   \<not> before_refresh 1700000000000 1700000100 \<and>
   \<not> isl (refresh (Granted demo_endpoint (Inr (Some 1700000100)))) \<and>
   \<not> has_token initial_tokenInfo"
  by (simp add: getEndpoint_def complete_refresh_def token_valid_def has_token_def
      initial_tokenInfo_def before_refresh_def TOKEN_REFRESH_BEFORE_EXPIRY_def demo_endpoint_def)

lemma run_steps_append: "run_steps (a @ b) w = run_steps b (run_steps a w)"
  by (simp add: run_steps_def)

lemma run_steps_Cons: "run_steps (s # ss) w = run_steps ss (run_step s w)"
  by (simp add: run_steps_def)

lemma run_steps_Nil: "run_steps [] w = w"
  by (simp add: run_steps_def)

lemma run_settles_requests:
  "length hss \<le> in_flight w \<Longrightarrow>
   requests (run_steps (map Settle hss) w) = requests w + length (filter sends_request hss) \<and>
   in_flight (run_steps (map Settle hss) w) = in_flight w - length hss"
proof (induction hss arbitrary: w)
  case Nil
  then show ?case by (simp add: run_steps_Nil)
next
  case (Cons hs hss)
  let ?w = "run_step (Settle hs) w"
  from Cons.prems have pos: "in_flight w \<noteq> 0" by auto
  then have w': "in_flight ?w = in_flight w - 1"
    "requests ?w = requests w + (if sends_request hs then 1 else 0)"
    by (simp_all split: prod.splits)
  with Cons.prems have "length hss \<le> in_flight ?w" by simp
  from Cons.IH [OF this] w' show ?case
    by (simp add: run_steps_Cons del: run_step.simps)
qed

lemma run_checks_all_stale:
  "\<forall>now\<in>set nows. \<not> token_valid now (cache w) \<Longrightarrow>
   run_steps (map Check nows) w = w\<lparr>in_flight := in_flight w + length nows\<rparr>"
proof (induction nows arbitrary: w)
  case Nil
  then show ?case by (simp add: run_steps_Nil)
next
  case (Cons now nows)
  from Cons.prems have "\<forall>n\<in>set nows. \<not> token_valid n (cache (w\<lparr>in_flight := in_flight w + 1\<rparr>))"
    by simp
  from Cons.IH [OF this] Cons.prems show ?case
    by (simp add: run_steps_Cons)
qed

lemma access_valid:
  "token_valid now (cache w) \<Longrightarrow>
   access now hs w = w\<lparr>served := served w @ [Inr (endpoint (cache w))]\<rparr>"
  by (simp add: access_def)

lemma access_stale_granted:
  assumes "\<not> token_valid now (cache w)"
  shows "cache (access now (Granted data (Inr exp)) w) =
           \<lparr>endpoint = Some data, token = Some (endpoint_t data), expiredAt = exp\<rparr> \<and>
         requests (access now (Granted data (Inr exp)) w) = requests w + 1"
  using assms by (simp add: access_def complete_refresh_def)

lemma run_accesses_Cons:
  "run_accesses ((now, hs) # rest) w = run_accesses rest (access now hs w)"
  by (simp add: run_accesses_def)

lemma run_accesses_valid:
  assumes "has_token (cache w)" and "expiredAt (cache w) = Some exp" and "exp \<noteq> 0"
    and "\<forall>(now, hs)\<in>set later. before_refresh now exp"
  shows "requests (run_accesses later w) = requests w"
  using assms
proof (induction later arbitrary: w)
  case Nil
  then show ?case by (simp add: run_accesses_def)
next
  case (Cons a later)
  obtain now hs where a: "a = (now, hs)" by (cases a)
  from Cons.prems a have v: "token_valid now (cache w)"
    by (simp add: token_valid_def)
  let ?w = "access now hs w"
  from access_valid [OF v, of hs] have w': "cache ?w = cache w" "requests ?w = requests w"
    by simp_all
  from Cons.prems w' have "requests (run_accesses later ?w) = requests ?w"
    by (intro Cons.IH) simp_all
  with w' a show ?case by (simp add: run_accesses_Cons)
qed

text \<open>
  Claim C9, as the code has it. A caller that finds the cache valid is served from the
  cache: no handshake starts and no request is sent. The test of the cache and the
  refresh are not one atomic step: every caller that tests a stale or empty cache
  before a handshake has settled starts a handshake of its own, so \<open>n\<close> such callers
  send one request for each caller whose signing succeeds, \<open>n\<close> requests when no
  signing fails, not one request in all. Exactly one request is sent when the accesses
  do not overlap, the handshake of the first succeeds, and the token it returns is
  still more than five minutes before its expiry at every later access.
\<close>

theorem handshakes_not_coalesced:
  "(token_valid now (cache w) \<longrightarrow>
      access now hs w = w\<lparr>served := served w @ [Inr (endpoint (cache w))]\<rparr>) \<and>
   ((\<forall>now\<in>set nows. \<not> token_valid now (cache w)) \<and> length hss = length nows \<longrightarrow>
      requests (run_steps (map Check nows @ map Settle hss) w) =
        requests w + length (filter sends_request hss) \<and>
      ((\<forall>hs\<in>set hss. sends_request hs) \<longrightarrow>
         requests (run_steps (map Check nows @ map Settle hss) w) = requests w + length nows)) \<and>
   (\<not> token_valid now0 (cache w) \<and> endpoint_t data \<noteq> [] \<and> exp \<noteq> 0 \<and>
    (\<forall>(now, hs)\<in>set later. before_refresh now exp) \<longrightarrow>
      requests (run_accesses ((now0, Granted data (Inr (Some exp))) # later) w) = requests w + 1)"
proof (intro conjI impI)
  assume "token_valid now (cache w)"
  then show "access now hs w = w\<lparr>served := served w @ [Inr (endpoint (cache w))]\<rparr>"
    by (rule access_valid)
next
  assume a: "(\<forall>now\<in>set nows. \<not> token_valid now (cache w)) \<and> length hss = length nows"
  let ?w = "w\<lparr>in_flight := in_flight w + length nows\<rparr>"
  from a have "length hss \<le> in_flight ?w" by simp
  from run_settles_requests [OF this] run_checks_all_stale [of nows w] a
  show r: "requests (run_steps (map Check nows @ map Settle hss) w) =
        requests w + length (filter sends_request hss)"
    by (simp add: run_steps_append)
  assume "\<forall>hs\<in>set hss. sends_request hs"
  then have "filter sends_request hss = hss" by (simp add: filter_id_conv)
  with r a show "requests (run_steps (map Check nows @ map Settle hss) w) = requests w + length nows"
    by simp
next
  assume a: "\<not> token_valid now0 (cache w) \<and> endpoint_t data \<noteq> [] \<and> exp \<noteq> 0 \<and>
    (\<forall>(now, hs)\<in>set later. before_refresh now exp)"
  let ?w = "access now0 (Granted data (Inr (Some exp))) w"
  from a access_stale_granted [of now0 w data "Some exp"] have w':
    "cache ?w = \<lparr>endpoint = Some data, token = Some (endpoint_t data), expiredAt = Some exp\<rparr>"
    "requests ?w = requests w + 1"
    by simp_all
  from a w'(1) have "requests (run_accesses later ?w) = requests ?w"
    by (intro run_accesses_valid [where exp = exp]) (simp_all add: has_token_def)
  with w'(2) show "requests (run_accesses ((now0, Granted data (Inr (Some exp))) # later) w) =
      requests w + 1"
    by (simp add: run_accesses_Cons)
qed

text \<open>
  Three callers on the empty cache send three requests; three accesses that do not
  overlap send one; a caller on a valid cache is served from it.
\<close>

theorem handshakes_not_coalesced_witness:
  "\<not> token_valid 1700000000000 (cache initial_world) \<and>
   requests (run_steps [Check 1700000000000, Check 1700000000001, Check 1700000000002,
                        Settle demo_grant, Settle demo_grant, Settle demo_grant] initial_world) = 3 \<and>
   requests (run_accesses [(1700000000000, demo_grant), (1700000001000, demo_grant),
                           (1700000002000, HttpFailure 503 '''' '''')] initial_world) = 1 \<and>
   access 1700000000000 demo_grant
       (initial_world\<lparr>cache := \<lparr>endpoint = Some demo_endpoint, token = Some ''tok'',
                                  expiredAt = Some 1700003600\<rparr>\<rparr>) =
     initial_world\<lparr>cache := \<lparr>endpoint = Some demo_endpoint, token = Some ''tok'',
                                expiredAt = Some 1700003600\<rparr>,
                    served := [Inr (Some demo_endpoint)]\<rparr>"
proof -
  have s: "\<not> token_valid 1700000000000 (cache initial_world)"
    "\<not> token_valid 1700000000001 (cache initial_world)"
    "\<not> token_valid 1700000000002 (cache initial_world)"
    by (simp_all add: initial_world_def initial_tokenInfo_def token_valid_def has_token_def)
  have sr: "sends_request demo_grant" by (simp add: demo_grant_def)
  have g: "demo_grant = Granted demo_endpoint (Inr (Some 1700003600))"
    "endpoint_t demo_endpoint \<noteq> []" "(1700003600::int) \<noteq> 0"
    by (simp_all add: demo_grant_def demo_endpoint_def)
  have l: "\<forall>(now, hs)\<in>set [(1700000001000, demo_grant), (1700000002000, HttpFailure 503 '''' '''')].
      before_refresh now 1700003600"
    by (simp add: before_refresh_def TOKEN_REFRESH_BEFORE_EXPIRY_def)
  let ?w = "initial_world\<lparr>cache := \<lparr>endpoint = Some demo_endpoint, token = Some ''tok'',
                                  expiredAt = Some 1700003600\<rparr>\<rparr>"
  have v: "token_valid 1700000000000 (cache ?w)"
    by (simp add: token_valid_def has_token_def before_refresh_def TOKEN_REFRESH_BEFORE_EXPIRY_def)
  note thm1 = handshakes_not_coalesced [where w = initial_world
      and nows = "[1700000000000, 1700000000001, 1700000000002]"
      and hss = "[demo_grant, demo_grant, demo_grant]"
      and ?now0.0 = 1700000000000 and data = demo_endpoint and exp = 1700003600
      and later = "[(1700000001000, demo_grant), (1700000002000, HttpFailure 503 '''' '''')]"]
  note thm2 = handshakes_not_coalesced [where w = ?w and now = 1700000000000 and hs = demo_grant
      and nows = "[]" and hss = "[]"]
  from thm1 s sr g l have
    "requests (run_steps [Check 1700000000000, Check 1700000000001, Check 1700000000002,
                        Settle demo_grant, Settle demo_grant, Settle demo_grant] initial_world) = 3"
    "requests (run_accesses [(1700000000000, demo_grant), (1700000001000, demo_grant),
                           (1700000002000, HttpFailure 503 '''' '''')] initial_world) = 1"
    by (simp_all add: initial_world_def)
  moreover from thm2 v have "access 1700000000000 demo_grant ?w =
      ?w\<lparr>served := served ?w @ [Inr (endpoint (cache ?w))]\<rparr>"
    by blast
  ultimately show ?thesis using s(1) by (simp add: initial_world_def)
qed

text \<open>
  Claim C9 as stated fails: two callers test the empty cache before either handshake
  settles, and two requests are sent.
\<close>

theorem duplicate_handshakes_counterexample:
  "requests (run_steps [Check 1700000000000, Check 1700000000000,
                        Settle demo_grant, Settle demo_grant] initial_world) = 2 \<and>
   in_flight (run_steps [Check 1700000000000, Check 1700000000000] initial_world) = 2"
  by (simp add: run_steps_def initial_world_def initial_tokenInfo_def token_valid_def has_token_def
      complete_refresh_def demo_grant_def demo_endpoint_def)

section \<open>Properties of the request handler\<close>

text \<open>
  Claim C10. A request whose \<open>input\<close> is the empty string gets the response of the
  same request without \<open>input\<close>, and the orchestrator is not started (the trace is
  empty, no synthesis call is made); for a POST request with a JSON body the response
  is the error with status 400 and code \<open>invalid_request_error\<close>.
\<close>

theorem empty_input_rejected:
  "handleSpeechRequest cleanText synth write_ok order
      (request\<lparr>json := Some (requestBody\<lparr>body_input := JString []\<rparr>)\<rparr>) =
   handleSpeechRequest cleanText synth write_ok order
      (request\<lparr>json := Some (requestBody\<lparr>body_input := JUndefined\<rparr>)\<rparr>) \<and>
   (\<exists>resp. handleSpeechRequest cleanText synth write_ok order
      (request\<lparr>json := Some (requestBody\<lparr>body_input := JString []\<rparr>)\<rparr>) = Some ([], Inr resp)) \<and>
   (http_method request = ''POST'' \<longrightarrow>
      handleSpeechRequest cleanText synth write_ok order
        (request\<lparr>json := Some (requestBody\<lparr>body_input := JString []\<rparr>)\<rparr>) =
      Some ([], Inr (ErrorResponse InputRequired 400 ''invalid_request_error'')))"
  by (simp add: handleSpeechRequest_def errorResponse_def)

text \<open>
  The request \<open>{"model": "tts-1-alloy", "input": ""}\<close> and the same without \<open>input\<close>.
\<close>

theorem empty_input_rejected_witness:
  "handleSpeechRequest id echo_voice (\<lambda>n. True) (\<lambda>i. [0])
      (demo_request\<lparr>json := Some (demo_body\<lparr>body_input := JString []\<rparr>)\<rparr>) =
     Some ([], Inr (ErrorResponse InputRequired 400 ''invalid_request_error'')) \<and>
   handleSpeechRequest id echo_voice (\<lambda>n. True) (\<lambda>i. [0])
      (demo_request\<lparr>json := Some (demo_body\<lparr>body_input := JUndefined\<rparr>)\<rparr>) =
     Some ([], Inr (ErrorResponse InputRequired 400 ''invalid_request_error''))"
proof -
  have p: "http_method demo_request = ''POST''" by (simp add: demo_request_def)
  from empty_input_rejected [where request = demo_request and requestBody = demo_body
      and cleanText = id and synth = echo_voice and write_ok = "\<lambda>n. True" and order = "\<lambda>i. [0]"] p
  show ?thesis by metis
qed

lemmas handler_eval =
  handleSpeechRequest_def resolved_voice_def finalVoice_def modelVoice_def default_to_def
  voice_map_get_def OPENAI_VOICE_MAP_def object_prototype_names_def
  DEFAULT_CONCURRENCY_def DEFAULT_CHUNK_SIZE_def demo_request_def demo_body_def echo_voice_def

text \<open>
  Claim C2 fails on the code. For the body \<open>{"model": "tts-1-alloy", "input": "hi"}\<close>
  the default \<open>"shimmer"\<close> of \<open>voice\<close> is truthy, so the table is not read and the
  synthesis is called with the voice \<open>shimmer\<close>; the table entry of \<open>alloy\<close> is used
  only when \<open>voice\<close> is sent and is falsy, such as \<open>null\<close>. A model that the table does
  not have is not rejected either.
\<close>

theorem absent_voice_ignores_model:
  "resolved_voice demo_body = Inr (JString (ascii ''shimmer'')) \<and>
   resolved_voice (demo_body\<lparr>body_voice := JNull\<rparr>) = Inr (JString (ascii ''zh-CN-YunyangNeural'')) \<and>
   resolved_voice (demo_body\<lparr>body_model := JString (ascii ''tts-1-nosuch'')\<rparr>) =
     Inr (JString (ascii ''shimmer'')) \<and>
   handleSpeechRequest id echo_voice (\<lambda>n. True) (\<lambda>i. [0]) demo_request =
     Some ([Dispatch [ascii ''hi'']], Inr (AudioResponse (ascii ''shimmer'')))"
  by (simp add: handler_eval chunker_eval orchestrator_eval)

end
